theory Spec2Isabelle
  imports Complex_Main "HOL-Library.Log_Nat" "HOL-Library.Word"
begin

section \<open>Duplicate-case detection and resolution\<close>

text \<open>
  This theory embeds the duplicate-case router of the service: the string similarity
  helpers \<open>levenshteinDistance\<close> and \<open>calculateSimilarity\<close>, the weighted pairwise
  scorer and the candidate scan of \<open>POST /detect\<close>, its persistence loop, the listing
  handler \<open>GET /\<close> and the resolution route \<open>PATCH /:id/resolve\<close> with its validators,
  its handler and its audit middleware, over an explicit database state holding the
  tables \<open>MissingPerson\<close>, \<open>DuplicateCase\<close> and \<open>AuditLog\<close>.
\<close>

subsection \<open>JavaScript numbers\<close>

text \<open>
  A JavaScript number is an IEEE 754 double. Every finite double is a rational, and each
  of \<open>+\<close>, \<open>-\<close>, \<open>*\<close>, \<open>/\<close> returns the exact result rounded to the nearest double, ties to
  the even significand. \<open>fl64\<close> is that rounding on rationals (53 significant bits; the
  exponent range is not bounded, as no value of this program comes near overflow or the
  subnormal range). Integer-valued quantities of the program that stay far below
  \<open>2 ^ 53\<close> (string lengths, loop counters, matrix cells) are exact in a double and are
  modelled by \<open>nat\<close> and \<open>int\<close>.
\<close>

definition rne :: "rat \<Rightarrow> int" where
  \<comment> \<open>the nearest integer, the even one of two that are equally near\<close>
  "rne m = (let n = \<lfloor>m\<rfloor>; f = m - of_int n in
     if f < 1/2 then n else if 1/2 < f then n + 1 else if even n then n else n + 1)"

definition expo :: "rat \<Rightarrow> int" where
  \<comment> \<open>the binary exponent of \<open>x \<noteq> 0\<close>: \<open>2 ^ expo x \<le> \<bar>x\<bar> < 2 ^ (expo x + 1)\<close>\<close>
  "expo x = (let (p, q) = quotient_of \<bar>x\<bar>; k = bitlen p - bitlen q in
     if 2 powi k \<le> \<bar>x\<bar> then k else k - 1)"

definition fl64 :: "rat \<Rightarrow> rat" where
  \<comment> \<open>\<open>x\<close> in units of \<open>2 ^ (expo x - 52)\<close>, rounded to an integer of 53 bits\<close>
  "fl64 x = (if x = 0 then 0 else
     let u = 2 powi (expo x - 52) in of_int (rne (x / u)) * u)"

definition jsnum :: "rat \<Rightarrow> rat" where
  \<comment> \<open>the double denoted by a decimal literal such as \<open>0.4\<close>\<close>
  "jsnum q = fl64 q"

definition jsadd :: "rat \<Rightarrow> rat \<Rightarrow> rat" where
  "jsadd a b = fl64 (a + b)"

definition jssub :: "rat \<Rightarrow> rat \<Rightarrow> rat" where
  "jssub a b = fl64 (a - b)"

definition jsmul :: "rat \<Rightarrow> rat \<Rightarrow> rat" where
  "jsmul a b = fl64 (a * b)"

definition jsdiv :: "rat \<Rightarrow> rat \<Rightarrow> rat" where
  \<comment> \<open>only used with a divisor that the code has made non-zero\<close>
  "jsdiv a b = fl64 (a / b)"

subsection \<open>Strings and the edit-distance matrix\<close>

text \<open>
  A JavaScript string is a sequence of UTF-16 code units; \<open>length\<close> counts them and
  \<open>charAt\<close> returns one of them, or the empty string out of range (\<open>None\<close> here).
  The functions on strings are polymorphic in the code unit.

  \<open>matrix\<close> is an array of arrays of numbers. JavaScript arrays are objects keyed by
  index, so a row is a partial map from index to cell and the matrix a partial map from
  index to row. An absent cell reads as \<open>undefined\<close>, and arithmetic on \<open>undefined\<close>
  gives \<open>NaN\<close>; both are \<open>None\<close> among the cells. Indexing an absent row throws a
  \<open>TypeError\<close>, which is \<open>None\<close> among the results of the loops.
\<close>

type_synonym jsstring = "16 word list"

type_synonym row = "nat \<Rightarrow> nat option"

type_synonym matrix = "nat \<Rightarrow> row option"

definition charAt :: "'a list \<Rightarrow> nat \<Rightarrow> 'a option" where
  "charAt s k = (if k < length s then Some (s ! k) else None)"

definition plus1 :: "nat option \<Rightarrow> nat option" where
  \<comment> \<open>\<open>cell + 1\<close>\<close>
  "plus1 v = map_option Suc v"

definition min3 :: "nat option \<Rightarrow> nat option \<Rightarrow> nat option \<Rightarrow> nat option" where
  \<comment> \<open>\<open>Math.min\<close> of three numbers: \<open>NaN\<close> as soon as one of them is\<close>
  "min3 a b c =
     (case (a, b, c) of (Some x, Some y, Some z) \<Rightarrow> Some (min x (min y z)) | _ \<Rightarrow> None)"

text \<open>\<open>for (let i = 0; i <= str2.length; i++) matrix[i] = [i]\<close>, with \<open>n = str2.length\<close>.\<close>

function initRows :: "nat \<Rightarrow> nat \<Rightarrow> matrix \<Rightarrow> matrix" where
  "initRows i n m = (if i \<le> n then initRows (Suc i) n (m(i \<mapsto> Map.empty(0 \<mapsto> i))) else m)"
  by pat_completeness auto
termination
  by (relation "measure (\<lambda>(i, n, m). Suc n - i)") auto

text \<open>\<open>for (let j = 0; j <= str1.length; j++) matrix[0][j] = j\<close>, with \<open>n = str1.length\<close>.\<close>

function initCols :: "nat \<Rightarrow> nat \<Rightarrow> matrix \<Rightarrow> matrix option" where
  "initCols j n m =
     (if j \<le> n then
        (case m 0 of
           None \<Rightarrow> None
         | Some r \<Rightarrow> initCols (Suc j) n (m(0 \<mapsto> r(j \<mapsto> j))))
      else Some m)"
  by pat_completeness auto
termination
  by (relation "measure (\<lambda>(j, n, m). Suc n - j)") auto

text \<open>
  The body of the inner loop at \<open>i = i' + 1\<close>, \<open>j = j' + 1\<close>: the value stored in
  \<open>matrix[i][j]\<close>, read from the previous row \<open>matrix[i - 1]\<close> and the current row.
\<close>

definition cellValue :: "'a list \<Rightarrow> 'a list \<Rightarrow> row \<Rightarrow> row \<Rightarrow> nat \<Rightarrow> nat \<Rightarrow> nat option" where
  "cellValue str1 str2 prev cur i' j' =
     (if charAt str2 i' = charAt str1 j' then prev j'
      else min3 (plus1 (prev j')) (plus1 (cur j')) (plus1 (prev (Suc j'))))"

text \<open>The inner loop \<open>for (let j = 1; j <= str1.length; j++)\<close> of row \<open>i\<close>, from \<open>j\<close> on.\<close>

function fillRow :: "'a list \<Rightarrow> 'a list \<Rightarrow> nat \<Rightarrow> nat \<Rightarrow> matrix \<Rightarrow> matrix option" where
  "fillRow str1 str2 i j m =
     (if j \<le> length str1 then
        (case (i, j) of
           (Suc i', Suc j') \<Rightarrow>
             (case (m i', m i) of
                (Some prev, Some cur) \<Rightarrow>
                  fillRow str1 str2 i (Suc j)
                    (m(i \<mapsto> cur(j := cellValue str1 str2 prev cur i' j')))
              | _ \<Rightarrow> None)
         | _ \<Rightarrow> None)
      else Some m)"
  by pat_completeness auto
termination
  by (relation "measure (\<lambda>(str1, str2, i, j, m). Suc (length str1) - j)") auto

text \<open>The outer loop \<open>for (let i = 1; i <= str2.length; i++)\<close>, from \<open>i\<close> on.\<close>

function fillRows :: "'a list \<Rightarrow> 'a list \<Rightarrow> nat \<Rightarrow> matrix \<Rightarrow> matrix option" where
  "fillRows str1 str2 i m =
     (if i \<le> length str2 then
        (case fillRow str1 str2 i 1 m of
           None \<Rightarrow> None
         | Some m' \<Rightarrow> fillRows str1 str2 (Suc i) m')
      else Some m)"
  by pat_completeness auto
termination
  by (relation "measure (\<lambda>(str1, str2, i, m). Suc (length str2) - i)") auto

text \<open>
  \<open>levenshteinDistance\<close> returns \<open>matrix[str2.length][str1.length]\<close>; \<open>None\<close> stands for
  every abnormal outcome (a \<open>TypeError\<close>, \<open>undefined\<close> or \<open>NaN\<close>).
\<close>

definition levenshteinDistance :: "'a list \<Rightarrow> 'a list \<Rightarrow> nat option" where
  "levenshteinDistance str1 str2 =
     (case initCols 0 (length str1) (initRows 0 (length str2) Map.empty) of
        None \<Rightarrow> None
      | Some m0 \<Rightarrow>
          (case fillRows str1 str2 1 m0 of
             None \<Rightarrow> None
           | Some m \<Rightarrow> (case m (length str2) of None \<Rightarrow> None | Some r \<Rightarrow> r (length str1))))"

definition calculateSimilarity :: "'a list \<Rightarrow> 'a list \<Rightarrow> rat option" where
  "calculateSimilarity str1 str2 =
     (let longer = (if length str1 > length str2 then str1 else str2);
          shorter = (if length str1 > length str2 then str2 else str1)
      in if length longer = 0 then Some 1
         else (case levenshteinDistance longer shorter of
                 None \<Rightarrow> None
               | Some distance \<Rightarrow>
                   Some (jsdiv (of_int (int (length longer) - int distance))
                               (of_nat (length longer)))))"


subsection \<open>The edit distance of the specification\<close>

text \<open>
  The recurrence as the specification words it: \<open>d[i][0] = i\<close>, \<open>d[0][j] = j\<close>, and
  \<open>d[i][j] = d[i-1][j-1]\<close> when the \<open>i\<close>-th character of the first string equals the
  \<open>j\<close>-th of the second, else \<open>1 + min(d[i-1][j], d[i][j-1], d[i-1][j-1])\<close>. The edit
  distance of two strings is \<open>d\<close> at their lengths, and the normalized similarity is
  \<open>(maxLen - distance) / maxLen\<close>, a quotient of two JavaScript numbers, or 1 when both
  strings are empty.
\<close>

fun spec_d :: "'a list \<Rightarrow> 'a list \<Rightarrow> nat \<Rightarrow> nat \<Rightarrow> nat" where
  "spec_d a b 0 j = j"
| "spec_d a b (Suc i) 0 = Suc i"
| "spec_d a b (Suc i) (Suc j) =
     (if a ! i = b ! j then spec_d a b i j
      else 1 + min (spec_d a b i (Suc j)) (min (spec_d a b (Suc i) j) (spec_d a b i j)))"

definition spec_editDistance :: "'a list \<Rightarrow> 'a list \<Rightarrow> nat" where
  "spec_editDistance s1 s2 = spec_d s1 s2 (length s1) (length s2)"

definition spec_textSimilarity :: "'a list \<Rightarrow> 'a list \<Rightarrow> rat" where
  "spec_textSimilarity s1 s2 =
     (let maxLen = max (length s1) (length s2)
      in if maxLen = 0 then 1
         else jsdiv (of_int (int maxLen - int (spec_editDistance s1 s2))) (of_nat maxLen))"

text \<open>
  The loop invariants of the matrix fill: the first \<open>k\<close> cells of row \<open>i\<close> hold the
  recurrence, and so do the first \<open>k\<close> cells of every row from \<open>lo\<close> up to \<open>hi\<close>.
\<close>

definition rowFilled :: "'a list \<Rightarrow> 'a list \<Rightarrow> nat \<Rightarrow> nat \<Rightarrow> row \<Rightarrow> bool" where
  "rowFilled str1 str2 i k r \<longleftrightarrow> (\<forall>c<k. r c = Some (spec_d str2 str1 i c))"

definition rowsFilled :: "'a list \<Rightarrow> 'a list \<Rightarrow> nat \<Rightarrow> nat \<Rightarrow> nat \<Rightarrow> matrix \<Rightarrow> bool" where
  "rowsFilled str1 str2 lo hi k m \<longleftrightarrow>
     (\<forall>r. lo \<le> r \<and> r < hi \<longrightarrow> (\<exists>row. m r = Some row \<and> rowFilled str1 str2 r k row))"

subsection \<open>Tables\<close>

text \<open>
  The rows of the three tables the router touches, with the columns it reads or writes.
  Every optional column is an \<open>option\<close>. The handlers guard \<open>fullName\<close>, \<open>missingDate\<close>
  and \<open>province\<close> against \<open>null\<close> although the schema declares them \<open>NOT NULL\<close>; the
  model keeps the guards and lets these columns be absent as well. Timestamps are
  milliseconds since the epoch (\<open>Date.getTime()\<close>). Identifiers of cases and users are
  opaque text; the identifier the database generates for a new \<open>DuplicateCase\<close> row
  is drawn from a counter. The column \<open>id\<close> is \<open>mp_id\<close> in a case and \<open>dc_id\<close> in a pair.
  A handler answers with a status: 200 with a body, 400, 404 or 500.
\<close>

text \<open>
  A field of a JSON request body, as \<open>express.json()\<close> hands it to the route: \<open>null\<close>, a
  boolean, a number or a string. A field that is an array or an object is not modelled.
\<close>

datatype jsvalue = JNull | JBool bool | JNum rat | JStr string

text \<open>
  The audit log has two writers: the resolution handler, whose entry for a deleted case
  names that case in \<open>entityId\<close>, quotes its name in \<open>details\<close> and keeps the two case
  identifiers and the score of the pair in \<open>metadata\<close>; and the middleware \<open>auditLog\<close>,
  whose entry names in \<open>entityId\<close> the \<open>:id\<close> of the route (here a pair) when there is
  one and keeps the method and the body of the request in \<open>metadata\<close>. The columns carry
  the prefix \<open>al_\<close>, and \<open>details\<close> and \<open>metadata\<close> are one column \<open>al_payload\<close>. The
  text the middleware puts in \<open>details\<close> and the path repeat the action, the method and
  the identifier; the query, the address and the user agent of the request are not
  modelled.
\<close>

datatype entityRef = CaseRef string | PairRef nat

datatype auditPayload =
    DeletedCase "jsstring option" string string rat
  | RequestMade string "(string \<times> jsvalue) list"

datatype duplicateStatus = PENDENTE | CONFIRMADO | REJEITADO | RESOLVIDO

record missingPerson =
  mp_id :: string
  fullName :: "jsstring option"
  age :: "int option"
  missingDate :: "int option"
  province :: "jsstring option"
  approved :: bool
  createdAt :: int

record duplicateCase =
  dc_id :: nat
  originalCaseId :: string
  duplicateCaseId :: string
  similarityScore :: rat
  detectedBy :: "string option"
  detectedAt :: int
  status :: duplicateStatus
  resolvedBy :: "string option"
  resolvedAt :: "int option"
  resolutionNotes :: "string option"

record auditLog =
  al_userId :: "string option"
  al_action :: string
  al_entityType :: string
  al_entityId :: "entityRef option"
  al_payload :: auditPayload

record db =
  missingPersons :: "missingPerson list"
  duplicateCases :: "duplicateCase list"
  auditLogs :: "auditLog list"
  nextId :: nat

datatype 'a response = OK 'a | BadRequest | NotFound | ServerError

subsection \<open>The pairwise scorer\<close>

text \<open>
  \<open>toLowerCase\<close> belongs to the runtime; the scorer takes it as a parameter.
  \<open>toLowerCaseAscii\<close> is its restriction to strings of ASCII code units, for use on
  concrete inputs.
\<close>

definition toLowerCaseAscii :: "jsstring \<Rightarrow> jsstring" where
  "toLowerCaseAscii s = map (\<lambda>c. if 65 \<le> c \<and> c \<le> 90 then c + 32 else c) s"

type_synonym tally = "rat \<times> rat"

definition dateSimilarity :: "int \<Rightarrow> int \<Rightarrow> rat" where
  "dateSimilarity d1 d2 =
     (let dateDiff = \<bar>jssub (of_int d1) (of_int d2)\<bar>;
          daysDiff = jsdiv dateDiff (1000 * 60 * 60 * 24)
      in if daysDiff \<le> 30 then jssub 1 (jsdiv daysDiff 30) else 0)"

definition locationSimilarity :: "jsstring \<Rightarrow> jsstring \<Rightarrow> rat" where
  "locationSimilarity p1 p2 = (if p1 = p2 then 1 else 0)"

definition ageSimilarity :: "int \<Rightarrow> int \<Rightarrow> rat" where
  "ageSimilarity a1 a2 =
     (let ageDiff = \<bar>jssub (of_int a1) (of_int a2)\<bar>
      in if ageDiff \<le> 5 then jssub 1 (jsdiv ageDiff 5) else 0)"

definition addFactor :: "tally \<Rightarrow> rat \<Rightarrow> rat \<Rightarrow> tally" where
  \<comment> \<open>\<open>score += similarity * weight; factors += weight\<close>\<close>
  "addFactor t similarity weight =
     (jsadd (fst t) (jsmul similarity weight), jsadd (snd t) weight)"

definition compareName ::
  "(jsstring \<Rightarrow> jsstring) \<Rightarrow> missingPerson \<Rightarrow> missingPerson \<Rightarrow> tally \<Rightarrow> tally option" where
  "compareName toLowerCase case1 case2 t =
     (case (fullName case1, fullName case2) of
        (Some n1, Some n2) \<Rightarrow>
          if n1 \<noteq> [] \<and> n2 \<noteq> [] then
            (case calculateSimilarity (toLowerCase n1) (toLowerCase n2) of
               None \<Rightarrow> None
             | Some nameSimilarity \<Rightarrow> Some (addFactor t nameSimilarity (jsnum (4/10))))
          else Some t
      | _ \<Rightarrow> Some t)"

definition compareDate :: "missingPerson \<Rightarrow> missingPerson \<Rightarrow> tally \<Rightarrow> tally" where
  "compareDate case1 case2 t =
     (case (missingDate case1, missingDate case2) of
        (Some d1, Some d2) \<Rightarrow> addFactor t (dateSimilarity d1 d2) (jsnum (2/10))
      | _ \<Rightarrow> t)"

definition compareProvince :: "missingPerson \<Rightarrow> missingPerson \<Rightarrow> tally \<Rightarrow> tally" where
  "compareProvince case1 case2 t =
     (case (province case1, province case2) of
        (Some p1, Some p2) \<Rightarrow>
          if p1 \<noteq> [] \<and> p2 \<noteq> [] then addFactor t (locationSimilarity p1 p2) (jsnum (2/10))
          else t
      | _ \<Rightarrow> t)"

definition compareAge :: "missingPerson \<Rightarrow> missingPerson \<Rightarrow> tally \<Rightarrow> tally" where
  "compareAge case1 case2 t =
     (case (age case1, age case2) of
        (Some a1, Some a2) \<Rightarrow>
          if a1 \<noteq> 0 \<and> a2 \<noteq> 0 then addFactor t (ageSimilarity a1 a2) (jsnum (2/10))
          else t
      | _ \<Rightarrow> t)"

definition finalScore :: "tally \<Rightarrow> rat" where
  "finalScore t = (if snd t > 0 then jsdiv (fst t) (snd t) else 0)"

text \<open>
  The body of the scoring loop for one pair: \<open>score\<close> and \<open>factors\<close> start at 0, the four
  guarded comparisons run in source order, and the final score is their quotient.
  \<open>None\<close> is an abnormal string distance, carried along so that the totality of the
  scorer is a theorem and not an assumption.
\<close>

definition pairScore ::
  "(jsstring \<Rightarrow> jsstring) \<Rightarrow> missingPerson \<Rightarrow> missingPerson \<Rightarrow> rat option" where
  "pairScore toLowerCase case1 case2 =
     (case compareName toLowerCase case1 case2 (0, 0) of
        None \<Rightarrow> None
      | Some t \<Rightarrow>
          Some (finalScore (compareAge case1 case2 (compareProvince case1 case2
                  (compareDate case1 case2 t)))))"

text \<open>
  The score in the words of the specification, as a formula over a list of factors,
  each a similarity with its weight: a numerator that sums the products, a denominator
  that sums the weights, and their quotient when the denominator is positive, else 0.
  Sums, products and the quotient are those of JavaScript numbers, taken from left to
  right.
\<close>

definition spec_weightedScore :: "(rat \<times> rat) list \<Rightarrow> rat" where
  "spec_weightedScore fs =
     (let numerator = foldl jsadd 0 (map (\<lambda>(similarity, weight). jsmul similarity weight) fs);
          denominator = foldl jsadd 0 (map snd fs)
      in if denominator > 0 then jsdiv numerator denominator else 0)"

text \<open>
  The factors the code applies to a pair: a factor counts when both of its inputs are
  truthy, that is when both names or provinces are non-empty strings, both ages are
  non-zero numbers, both dates are there.
\<close>

definition nameFactor ::
  "(jsstring \<Rightarrow> jsstring) \<Rightarrow> missingPerson \<Rightarrow> missingPerson \<Rightarrow> (rat \<times> rat) list" where
  "nameFactor toLowerCase case1 case2 =
     (case (fullName case1, fullName case2) of
        (Some n1, Some n2) \<Rightarrow>
          if n1 \<noteq> [] \<and> n2 \<noteq> [] then
            [(spec_textSimilarity (toLowerCase n1) (toLowerCase n2), jsnum (4/10))]
          else []
      | _ \<Rightarrow> [])"

definition dateFactor :: "missingPerson \<Rightarrow> missingPerson \<Rightarrow> (rat \<times> rat) list" where
  "dateFactor case1 case2 =
     (case (missingDate case1, missingDate case2) of
        (Some d1, Some d2) \<Rightarrow> [(dateSimilarity d1 d2, jsnum (2/10))]
      | _ \<Rightarrow> [])"

definition provinceFactor :: "missingPerson \<Rightarrow> missingPerson \<Rightarrow> (rat \<times> rat) list" where
  "provinceFactor case1 case2 =
     (case (province case1, province case2) of
        (Some p1, Some p2) \<Rightarrow>
          if p1 \<noteq> [] \<and> p2 \<noteq> [] then [(locationSimilarity p1 p2, jsnum (2/10))] else []
      | _ \<Rightarrow> [])"

definition ageFactor :: "missingPerson \<Rightarrow> missingPerson \<Rightarrow> (rat \<times> rat) list" where
  "ageFactor case1 case2 =
     (case (age case1, age case2) of
        (Some a1, Some a2) \<Rightarrow>
          if a1 \<noteq> 0 \<and> a2 \<noteq> 0 then [(ageSimilarity a1 a2, jsnum (2/10))] else []
      | _ \<Rightarrow> [])"

definition applicableFactors ::
  "(jsstring \<Rightarrow> jsstring) \<Rightarrow> missingPerson \<Rightarrow> missingPerson \<Rightarrow> (rat \<times> rat) list" where
  "applicableFactors toLowerCase case1 case2 =
     nameFactor toLowerCase case1 case2 @ dateFactor case1 case2
     @ provinceFactor case1 case2 @ ageFactor case1 case2"

text \<open>
  The factors in the words of the specification: a factor counts when both of its
  inputs are present.
\<close>

definition spec_presentFactors ::
  "(jsstring \<Rightarrow> jsstring) \<Rightarrow> missingPerson \<Rightarrow> missingPerson \<Rightarrow> (rat \<times> rat) list" where
  "spec_presentFactors toLowerCase case1 case2 =
     (case (fullName case1, fullName case2) of
        (Some n1, Some n2) \<Rightarrow>
          [(spec_textSimilarity (toLowerCase n1) (toLowerCase n2), jsnum (4/10))]
      | _ \<Rightarrow> [])
     @ (case (missingDate case1, missingDate case2) of
          (Some d1, Some d2) \<Rightarrow> [(dateSimilarity d1 d2, jsnum (2/10))]
        | _ \<Rightarrow> [])
     @ (case (province case1, province case2) of
          (Some p1, Some p2) \<Rightarrow> [(locationSimilarity p1 p2, jsnum (2/10))]
        | _ \<Rightarrow> [])
     @ (case (age case1, age case2) of
          (Some a1, Some a2) \<Rightarrow> [(ageSimilarity a1 a2, jsnum (2/10))]
        | _ \<Rightarrow> [])"

subsection \<open>The detection pass\<close>

record candidate =
  c_originalCaseId :: string
  c_duplicateCaseId :: string
  c_similarityScore :: rat

text \<open>\<open>for (let j = i + 1; j < cases.length; j++)\<close> for a fixed \<open>i\<close>, from \<open>j\<close> on.\<close>

function innerLoop ::
  "(jsstring \<Rightarrow> jsstring) \<Rightarrow> rat \<Rightarrow> missingPerson list \<Rightarrow> nat \<Rightarrow> nat \<Rightarrow>
   candidate list \<Rightarrow> candidate list option" where
  "innerLoop toLowerCase threshold cases i j duplicates =
     (if j < length cases then
        (if i < length cases then
           (case pairScore toLowerCase (cases ! i) (cases ! j) of
              None \<Rightarrow> None
            | Some score \<Rightarrow>
                innerLoop toLowerCase threshold cases i (Suc j)
                  (if score \<ge> threshold then
                     duplicates @ [\<lparr>c_originalCaseId = mp_id (cases ! i),
                                     c_duplicateCaseId = mp_id (cases ! j),
                                     c_similarityScore = score\<rparr>]
                   else duplicates))
         else None)
      else Some duplicates)"
  by pat_completeness auto
termination
  by (relation "measure (\<lambda>(lc, th, cases, i, j, ds). length cases - j)") auto

text \<open>\<open>for (let i = 0; i < cases.length; i++)\<close>, from \<open>i\<close> on.\<close>

function outerLoop ::
  "(jsstring \<Rightarrow> jsstring) \<Rightarrow> rat \<Rightarrow> missingPerson list \<Rightarrow> nat \<Rightarrow>
   candidate list \<Rightarrow> candidate list option" where
  "outerLoop toLowerCase threshold cases i duplicates =
     (if i < length cases then
        (case innerLoop toLowerCase threshold cases i (Suc i) duplicates of
           None \<Rightarrow> None
         | Some duplicates' \<Rightarrow> outerLoop toLowerCase threshold cases (Suc i) duplicates')
      else Some duplicates)"
  by pat_completeness auto
termination
  by (relation "measure (\<lambda>(lc, th, cases, i, ds). length cases - i)") auto

text \<open>
  \<open>prisma.missingPerson.findMany\<close> with \<open>approved: true\<close>, newest first. The order among
  equal \<open>createdAt\<close> is the database's; here it is the table order.
\<close>

definition findManyApproved :: "db \<Rightarrow> missingPerson list" where
  "findManyApproved d = sort_key (\<lambda>c. - createdAt c) (filter approved (missingPersons d))"

text \<open>\<open>prisma.duplicateCase.findUnique\<close> on the compound key.\<close>

definition findUniquePair :: "db \<Rightarrow> string \<Rightarrow> string \<Rightarrow> duplicateCase option" where
  "findUniquePair d a b =
     find (\<lambda>x. originalCaseId x = a \<and> duplicateCaseId x = b) (duplicateCases d)"

definition caseExists :: "db \<Rightarrow> string \<Rightarrow> bool" where
  "caseExists d a = (find (\<lambda>c. mp_id c = a) (missingPersons d) \<noteq> None)"

text \<open>
  \<open>prisma.duplicateCase.create\<close>. The row gets the column defaults (\<open>PENDENTE\<close>, the
  current time) and a fresh identifier. The call throws when the unique index on the
  ordered pair or a foreign key is violated, and when the database fails for a reason
  outside the model, which \<open>dbFails\<close> decides for each ordered pair. \<open>None\<close> is the throw.
\<close>

definition createDuplicate ::
  "(string \<Rightarrow> string \<Rightarrow> bool) \<Rightarrow> string option \<Rightarrow> int \<Rightarrow> candidate \<Rightarrow> db \<Rightarrow>
   (duplicateCase \<times> db) option" where
  "createDuplicate dbFails userId now dup d =
     (if dbFails (c_originalCaseId dup) (c_duplicateCaseId dup)
         \<or> findUniquePair d (c_originalCaseId dup) (c_duplicateCaseId dup) \<noteq> None
         \<or> \<not> caseExists d (c_originalCaseId dup)
         \<or> \<not> caseExists d (c_duplicateCaseId dup)
      then None
      else
        (let duplicate =
               \<lparr>dc_id = nextId d,
                originalCaseId = c_originalCaseId dup,
                duplicateCaseId = c_duplicateCaseId dup,
                similarityScore = c_similarityScore dup,
                detectedBy = userId,
                detectedAt = now,
                status = PENDENTE,
                resolvedBy = None,
                resolvedAt = None,
                resolutionNotes = None\<rparr>
         in Some (duplicate,
                  d\<lparr>duplicateCases := duplicateCases d @ [duplicate],
                    nextId := Suc (nextId d)\<rparr>)))"

text \<open>
  \<open>for (const dup of duplicates)\<close>: look the ordered pair up, create it when absent and
  push the new row on \<open>createdDuplicates\<close>. A throw leaves the loop (first component
  \<open>None\<close>) with the rows created so far still in the table.
\<close>

fun persistLoop ::
  "(string \<Rightarrow> string \<Rightarrow> bool) \<Rightarrow> string option \<Rightarrow> int \<Rightarrow> candidate list \<Rightarrow> db \<Rightarrow>
   duplicateCase list \<Rightarrow> duplicateCase list option \<times> db" where
  "persistLoop dbFails userId now [] d createdDuplicates = (Some createdDuplicates, d)"
| "persistLoop dbFails userId now (dup # rest) d createdDuplicates =
     (case findUniquePair d (c_originalCaseId dup) (c_duplicateCaseId dup) of
        Some existing \<Rightarrow> persistLoop dbFails userId now rest d createdDuplicates
      | None \<Rightarrow>
          (case createDuplicate dbFails userId now dup d of
             None \<Rightarrow> (None, d)
           | Some (duplicate, d') \<Rightarrow>
               persistLoop dbFails userId now rest d' (createdDuplicates @ [duplicate])))"

record detectRequest =
  dr_userId :: "string option"
  dr_threshold :: "rat option"

text \<open>
  The handler of \<open>POST /detect\<close>. The request body carries an optional number
  \<open>threshold\<close>, 0.7 when absent; the handler has no validator. The whole body runs in
  one \<open>try\<close>: any throw is answered with status 500. The answer 200 carries the rows
  created by this call. The reads of the database are taken to succeed. The row which
  the middleware \<open>auditLog\<close> of this route adds to the audit log once the answer is sent
  is no part of the handler; that middleware is modelled below, with the resolution
  route.
\<close>

definition detect ::
  "(jsstring \<Rightarrow> jsstring) \<Rightarrow> (string \<Rightarrow> string \<Rightarrow> bool) \<Rightarrow> int \<Rightarrow> detectRequest \<Rightarrow> db \<Rightarrow>
   duplicateCase list response \<times> db" where
  "detect toLowerCase dbFails now req d =
     (let threshold = (case dr_threshold req of None \<Rightarrow> jsnum (7/10) | Some t \<Rightarrow> t);
          cases = findManyApproved d
      in case outerLoop toLowerCase threshold cases 0 [] of
           None \<Rightarrow> (ServerError, d)
         | Some duplicates \<Rightarrow>
             (case persistLoop dbFails (dr_userId req) now duplicates d [] of
                (None, d') \<Rightarrow> (ServerError, d')
              | (Some createdDuplicates, d') \<Rightarrow> (OK createdDuplicates, d')))"

subsection \<open>Listing and resolution\<close>

definition statusOfString :: "string \<Rightarrow> duplicateStatus option" where
  "statusOfString s =
     (if s = ''PENDENTE'' then Some PENDENTE
      else if s = ''CONFIRMADO'' then Some CONFIRMADO
      else if s = ''REJEITADO'' then Some REJEITADO
      else if s = ''RESOLVIDO'' then Some RESOLVIDO
      else None)"

text \<open>
  The handler of \<open>GET /\<close>: an optional \<open>status\<close> query, validated against the four
  status names, and the rows in descending order of score.
\<close>

definition listDuplicates ::
  "string option \<Rightarrow> db \<Rightarrow> duplicateCase list response \<times> db" where
  "listDuplicates statusQuery d =
     (case statusQuery of
        None \<Rightarrow> (OK (sort_key (\<lambda>x. - similarityScore x) (duplicateCases d)), d)
      | Some s \<Rightarrow>
          (case statusOfString s of
             None \<Rightarrow> (BadRequest, d)
           | Some st \<Rightarrow>
               (OK (sort_key (\<lambda>x. - similarityScore x)
                      (filter (\<lambda>x. status x = st) (duplicateCases d))), d)))"

text \<open>
  A request to \<open>PATCH /:id/resolve\<close>: the user the authentication middleware found in
  the token, the \<open>:id\<close> of the path, and the three fields of the body the route reads,
  each absent (\<open>undefined\<close>) or a JSON value as it was sent. No validator of the route
  converts a value, so the handler sees the fields as they came.
\<close>

record resolveRequest =
  rr_userId :: "string option"
  rr_id :: nat
  rr_status :: "jsvalue option"
  rr_resolutionNotes :: "jsvalue option"
  rr_deleteDuplicate :: "jsvalue option"

text \<open>
  The validators of the route, from \<open>express-validator\<close>. A standard validator reads the
  text of the value (\<open>toString\<close>: the empty string for \<open>undefined\<close> and \<open>null\<close>, otherwise
  \<open>String(value)\<close>); \<open>optional()\<close> skips a field that is \<open>undefined\<close> and nothing else.
  The text of a number other than 0 and 1 is a numeral that none of the strings these
  validators compare with equals; it is left as \<open>None\<close>.
\<close>

fun toStringValue :: "jsvalue option \<Rightarrow> string option" where
  "toStringValue None = Some []"
| "toStringValue (Some JNull) = Some []"
| "toStringValue (Some (JBool b)) = Some (if b then ''true'' else ''false'')"
| "toStringValue (Some (JNum n)) =
     (if n = 0 then Some ''0'' else if n = 1 then Some ''1'' else None)"
| "toStringValue (Some (JStr s)) = Some s"

definition isIn :: "string list \<Rightarrow> jsvalue option \<Rightarrow> bool" where
  \<comment> \<open>\<open>isIn(values)\<close>\<close>
  "isIn values v = (case toStringValue v of None \<Rightarrow> False | Some s \<Rightarrow> s \<in> set values)"

definition isBoolean :: "jsvalue option \<Rightarrow> bool" where
  \<comment> \<open>\<open>isBoolean()\<close> without \<open>strict\<close>: the text is one of \<open>true\<close>, \<open>false\<close>, \<open>1\<close>, \<open>0\<close>\<close>
  "isBoolean v =
     (case toStringValue v of
        None \<Rightarrow> False
      | Some s \<Rightarrow> s \<in> set [''true'', ''false'', ''1'', ''0''])"

definition isString :: "jsvalue option \<Rightarrow> bool" where
  \<comment> \<open>\<open>isString()\<close>: \<open>typeof value === 'string'\<close>\<close>
  "isString v = (case v of Some (JStr s) \<Rightarrow> True | _ \<Rightarrow> False)"

definition optional :: "(jsvalue option \<Rightarrow> bool) \<Rightarrow> jsvalue option \<Rightarrow> bool" where
  "optional validator v = (case v of None \<Rightarrow> True | Some x \<Rightarrow> validator v)"

definition validationPasses :: "resolveRequest \<Rightarrow> bool" where
  \<comment> \<open>\<open>validationResult(req).isEmpty()\<close>; \<open>param('id').isString()\<close> holds of every path\<close>
  "validationPasses req \<longleftrightarrow>
     isIn [''CONFIRMADO'', ''REJEITADO'', ''RESOLVIDO''] (rr_status req)
     \<and> optional isString (rr_resolutionNotes req)
     \<and> optional isBoolean (rr_deleteDuplicate req)"

text \<open>What \<open>if (value)\<close> and \<open>&&\<close> take for true.\<close>

fun truthy :: "jsvalue option \<Rightarrow> bool" where
  "truthy None = False"
| "truthy (Some JNull) = False"
| "truthy (Some (JBool b)) = b"
| "truthy (Some (JNum n)) = (n \<noteq> 0)"
| "truthy (Some (JStr s)) = (s \<noteq> [])"

text \<open>\<open>prisma.duplicateCase.findUnique\<close> and \<open>update\<close> by primary key.\<close>

definition findDuplicate :: "db \<Rightarrow> nat \<Rightarrow> duplicateCase option" where
  "findDuplicate d i = find (\<lambda>x. dc_id x = i) (duplicateCases d)"

fun updateRow :: "nat \<Rightarrow> duplicateCase \<Rightarrow> duplicateCase list \<Rightarrow> duplicateCase list" where
  "updateRow i new [] = []"
| "updateRow i new (x # xs) = (if dc_id x = i then new # xs else x # updateRow i new xs)"

text \<open>
  \<open>prisma.missingPerson.delete\<close>: throws (\<open>None\<close>) when no row has the identifier;
  otherwise the row goes, and with it, by \<open>ON DELETE CASCADE\<close>, every \<open>DuplicateCase\<close>
  row that refers to it.
\<close>

definition deleteMissingPerson :: "db \<Rightarrow> string \<Rightarrow> db option" where
  "deleteMissingPerson d a =
     (if caseExists d a then
        Some (d\<lparr>missingPersons := filter (\<lambda>c. mp_id c \<noteq> a) (missingPersons d),
               duplicateCases :=
                 filter (\<lambda>x. originalCaseId x \<noteq> a \<and> duplicateCaseId x \<noteq> a) (duplicateCases d)\<rparr>)
      else None)"

text \<open>
  The handler of \<open>PATCH /:id/resolve\<close>. It answers 400 when a validator has failed and
  404 when no pair has the identifier; otherwise it updates the pair, whatever its
  status, and then tests \<open>status === 'CONFIRMADO' && deleteDuplicate\<close>, the second
  operand for truthiness. An \<open>undefined\<close> value in the data of an update leaves that
  column as it is; after validation \<open>status\<close> is one of the three names and
  \<open>resolutionNotes\<close> a string or \<open>undefined\<close>, and a value the update cannot store makes
  it throw. The read, the update and the write of the audit entry are taken to succeed;
  the delete throws when the case is not there, and that throw after the update is
  answered with 500 while the update stays.
\<close>

definition updatedRow ::
  "int \<Rightarrow> resolveRequest \<Rightarrow> duplicateStatus \<Rightarrow> duplicateCase \<Rightarrow> duplicateCase" where
  \<comment> \<open>the row after \<open>update\<close> with \<open>data: {status, resolvedBy, resolvedAt, resolutionNotes}\<close>\<close>
  "updatedRow now req st duplicate =
     duplicate
       \<lparr>status := st,
        resolvedBy := (case rr_userId req of None \<Rightarrow> resolvedBy duplicate | Some u \<Rightarrow> Some u),
        resolvedAt := Some now,
        resolutionNotes := (case rr_resolutionNotes req of
                              Some (JStr n) \<Rightarrow> Some n
                            | _ \<Rightarrow> resolutionNotes duplicate)\<rparr>"

definition deletionAudit :: "resolveRequest \<Rightarrow> duplicateCase \<Rightarrow> db \<Rightarrow> auditLog" where
  \<comment> \<open>the entry written after the delete; \<open>d\<close> is the state in which the pair was read\<close>
  "deletionAudit req duplicate d =
     \<lparr>al_userId = rr_userId req,
      al_action = ''DELETE_DUPLICATE_CASE'',
      al_entityType = ''CASE'',
      al_entityId = Some (CaseRef (duplicateCaseId duplicate)),
      al_payload =
        DeletedCase
          (case find (\<lambda>c. mp_id c = duplicateCaseId duplicate) (missingPersons d) of
             None \<Rightarrow> None
           | Some c \<Rightarrow> fullName c)
          (originalCaseId duplicate) (duplicateCaseId duplicate) (similarityScore duplicate)\<rparr>"

definition deletionRequested :: "resolveRequest \<Rightarrow> bool" where
  \<comment> \<open>\<open>status === 'CONFIRMADO' && deleteDuplicate\<close>\<close>
  "deletionRequested req \<longleftrightarrow>
     rr_status req = Some (JStr ''CONFIRMADO'') \<and> truthy (rr_deleteDuplicate req)"

definition statusData :: "jsvalue option \<Rightarrow> duplicateStatus option" where
  \<comment> \<open>\<open>status: status as any\<close>: the value of the enum column, if the field names one\<close>
  "statusData v = (case v of Some (JStr s) \<Rightarrow> statusOfString s | _ \<Rightarrow> None)"

definition resolveHandler ::
  "int \<Rightarrow> resolveRequest \<Rightarrow> db \<Rightarrow> duplicateCase response \<times> db" where
  "resolveHandler now req d =
     (if \<not> validationPasses req then (BadRequest, d)
      else
        (case findDuplicate d (rr_id req) of
           None \<Rightarrow> (NotFound, d)
         | Some duplicate \<Rightarrow>
             (case statusData (rr_status req) of
                None \<Rightarrow> (ServerError, d)
              | Some st \<Rightarrow>
                  (let updated = updatedRow now req st duplicate;
                       d1 = d\<lparr>duplicateCases := updateRow (rr_id req) updated (duplicateCases d)\<rparr>
                   in if deletionRequested req then
                        (case deleteMissingPerson d1 (duplicateCaseId duplicate) of
                           None \<Rightarrow> (ServerError, d1)
                         | Some d2 \<Rightarrow>
                             (OK updated,
                              d2\<lparr>auditLogs := auditLogs d2 @ [deletionAudit req duplicate d]\<rparr>))
                      else (OK updated, d1)))))"

text \<open>
  The middleware \<open>auditLog(action, entityType)\<close> stands in the route between the
  validators and the handler and wraps \<open>res.json\<close>: whenever the handler answers, with
  whatever status, and the request has a user (\<open>if (req.userId)\<close>), it starts the write
  of one row and does not await it. The model takes that write to have succeeded when
  the call is over (a failure is only logged), after the writes of the handler. For a
  route with an \<open>:id\<close> the row names it in \<open>entityId\<close>. None of the three fields of the
  body has a key that the middleware redacts.
\<close>

definition auditLogMiddleware ::
  "string \<Rightarrow> string \<Rightarrow> string option \<Rightarrow> entityRef option \<Rightarrow> string \<Rightarrow>
   (string \<times> jsvalue) list \<Rightarrow> db \<Rightarrow> db" where
  "auditLogMiddleware action entityType userId entityId method body d =
     (case userId of
        None \<Rightarrow> d
      | Some u \<Rightarrow>
          (if u = [] then d
           else d\<lparr>auditLogs := auditLogs d @
                    [\<lparr>al_userId = Some u, al_action = action, al_entityType = entityType,
                      al_entityId = entityId, al_payload = RequestMade method body\<rparr>]\<rparr>))"

definition bodyField :: "string \<Rightarrow> jsvalue option \<Rightarrow> (string \<times> jsvalue) list" where
  "bodyField key v = (case v of None \<Rightarrow> [] | Some x \<Rightarrow> [(key, x)])"

definition resolveBody :: "resolveRequest \<Rightarrow> (string \<times> jsvalue) list" where
  "resolveBody req =
     bodyField ''status'' (rr_status req)
     @ bodyField ''resolutionNotes'' (rr_resolutionNotes req)
     @ bodyField ''deleteDuplicate'' (rr_deleteDuplicate req)"

text \<open>
  The route \<open>PATCH /:id/resolve\<close> after authentication: the handler, and the row of the
  middleware \<open>auditLog('RESOLVE_DUPLICATE', 'CASE')\<close>.
\<close>

definition resolveAudit :: "resolveRequest \<Rightarrow> db \<Rightarrow> db" where
  "resolveAudit req d =
     auditLogMiddleware ''RESOLVE_DUPLICATE'' ''CASE'' (rr_userId req)
       (Some (PairRef (rr_id req))) ''PATCH'' (resolveBody req) d"

definition resolve ::
  "int \<Rightarrow> resolveRequest \<Rightarrow> db \<Rightarrow> duplicateCase response \<times> db" where
  "resolve now req d =
     (case resolveHandler now req d of (answer, d') \<Rightarrow> (answer, resolveAudit req d'))"

subsection \<open>The candidates of a pass, as a list\<close>

text \<open>
  What the two scan loops compute, written as a list comprehension: for each \<open>i\<close> in
  order, the pairs \<open>(i, j)\<close> with \<open>i < j\<close> whose score reaches the threshold, in the
  order of \<open>j\<close>.
\<close>

definition scoreAt :: "(jsstring \<Rightarrow> jsstring) \<Rightarrow> missingPerson list \<Rightarrow> nat \<Rightarrow> nat \<Rightarrow> rat" where
  "scoreAt toLowerCase cases i j =
     spec_weightedScore (applicableFactors toLowerCase (cases ! i) (cases ! j))"

definition candidateAt ::
  "(jsstring \<Rightarrow> jsstring) \<Rightarrow> missingPerson list \<Rightarrow> nat \<Rightarrow> nat \<Rightarrow> candidate" where
  "candidateAt toLowerCase cases i j =
     \<lparr>c_originalCaseId = mp_id (cases ! i),
      c_duplicateCaseId = mp_id (cases ! j),
      c_similarityScore = scoreAt toLowerCase cases i j\<rparr>"

definition rowCandidates ::
  "(jsstring \<Rightarrow> jsstring) \<Rightarrow> rat \<Rightarrow> missingPerson list \<Rightarrow> nat \<Rightarrow> nat \<Rightarrow> candidate list" where
  "rowCandidates toLowerCase threshold cases i j =
     map (candidateAt toLowerCase cases i)
       (filter (\<lambda>j'. scoreAt toLowerCase cases i j' \<ge> threshold) [j..<length cases])"

definition allCandidates ::
  "(jsstring \<Rightarrow> jsstring) \<Rightarrow> rat \<Rightarrow> missingPerson list \<Rightarrow> nat \<Rightarrow> candidate list" where
  "allCandidates toLowerCase threshold cases i =
     concat (map (\<lambda>i'. rowCandidates toLowerCase threshold cases i' (Suc i')) [i..<length cases])"

definition theThreshold :: "detectRequest \<Rightarrow> rat" where
  "theThreshold req = (case dr_threshold req of None \<Rightarrow> jsnum (7/10) | Some t \<Rightarrow> t)"

text \<open>
  Referential integrity of the \<open>DuplicateCase\<close> table: both cases of every row exist.
\<close>

definition fkIntegrity :: "db \<Rightarrow> bool" where
  "fkIntegrity d =
     list_all (\<lambda>x. caseExists d (originalCaseId x) \<and> caseExists d (duplicateCaseId x))
       (duplicateCases d)"

subsection \<open>Example data\<close>

text \<open>Concrete rows and requests on which the theorems below are instantiated.\<close>

definition exampleCase ::
  "string \<Rightarrow> jsstring \<Rightarrow> int option \<Rightarrow> int \<Rightarrow> jsstring \<Rightarrow> int \<Rightarrow> missingPerson" where
  "exampleCase i n a dt p c =
     \<lparr>mp_id = i, fullName = Some n, age = a, missingDate = Some dt, province = Some p,
      approved = True, createdAt = c\<rparr>"

definition dateOnlyCase :: "string \<Rightarrow> int \<Rightarrow> missingPerson" where
  "dateOnlyCase i dt =
     \<lparr>mp_id = i, fullName = None, age = None, missingDate = Some dt, province = None,
      approved = True, createdAt = 0\<rparr>"

definition blankCase :: "string \<Rightarrow> missingPerson" where
  "blankCase i =
     \<lparr>mp_id = i, fullName = Some [], age = Some 0, missingDate = None, province = Some [],
      approved = True, createdAt = 0\<rparr>"

definition oneDay :: int where
  "oneDay = 1000 * 60 * 60 * 24"

definition nameMaria :: jsstring where
  "nameMaria = [109, 97, 114, 105, 97]"

definition nameJoao :: jsstring where
  "nameJoao = [106, 111, 97, 111]"

definition luanda :: jsstring where
  "luanda = [76, 117, 97, 110, 100, 97]"

definition huila :: jsstring where
  "huila = [72, 117, 105, 108, 97]"

text \<open>
  Three approved cases, listed newest first as \<open>a\<close>, \<open>b\<close>, \<open>c\<close>: \<open>a\<close> and \<open>b\<close> agree on name
  and province and are nine days and one year of age apart; \<open>c\<close> has nothing in common
  with them. The registry is empty.
\<close>

definition exampleDb :: db where
  "exampleDb =
     \<lparr>missingPersons =
        [exampleCase ''a'' nameMaria (Some 30) 0 luanda 3,
         exampleCase ''b'' nameMaria (Some 31) (9 * oneDay) luanda 2,
         exampleCase ''c'' nameJoao (Some 8) (400 * oneDay) huila 1],
      duplicateCases = [],
      auditLogs = [],
      nextId = 0\<rparr>"

definition noFailure :: "string \<Rightarrow> string \<Rightarrow> bool" where
  "noFailure a b = False"

definition exampleRow :: "nat \<Rightarrow> string \<Rightarrow> string \<Rightarrow> rat \<Rightarrow> duplicateStatus \<Rightarrow> duplicateCase" where
  "exampleRow i a b s st =
     \<lparr>dc_id = i, originalCaseId = a, duplicateCaseId = b, similarityScore = s,
      detectedBy = Some ''mod'', detectedAt = 1000, status = st,
      resolvedBy = None, resolvedAt = None, resolutionNotes = None\<rparr>"

definition modRequest :: "rat option \<Rightarrow> detectRequest" where
  "modRequest t = \<lparr>dr_userId = Some ''mod'', dr_threshold = t\<rparr>"

definition rowAB :: duplicateCase where
  "rowAB = exampleRow 0 ''a'' ''b'' (jsnum (9/10)) PENDENTE"

definition rowAC :: duplicateCase where
  "rowAC = exampleRow 1 ''a'' ''c'' 0 PENDENTE"

definition rowBC :: duplicateCase where
  "rowBC = exampleRow 2 ''b'' ''c'' 0 PENDENTE"

definition failsOn :: "string \<Rightarrow> string \<Rightarrow> string \<Rightarrow> string \<Rightarrow> bool" where
  "failsOn a b x y = (x = a \<and> y = b)"

definition candAB :: candidate where
  "candAB = \<lparr>c_originalCaseId = ''a'', c_duplicateCaseId = ''b'', c_similarityScore = jsnum (9/10)\<rparr>"

definition candAC :: candidate where
  "candAC = \<lparr>c_originalCaseId = ''a'', c_duplicateCaseId = ''c'', c_similarityScore = 0\<rparr>"

definition candBC :: candidate where
  "candBC = \<lparr>c_originalCaseId = ''b'', c_duplicateCaseId = ''c'', c_similarityScore = 0\<rparr>"

text \<open>
  The example after a pass has registered the pair of \<open>a\<close> and \<open>b\<close>, still pending, and
  the same state after a moderator has confirmed that pair.
\<close>

definition exampleDbPending :: db where
  "exampleDbPending = exampleDb\<lparr>duplicateCases := [rowAB], nextId := 1\<rparr>"



definition adminResolve :: "string \<Rightarrow> jsvalue option \<Rightarrow> resolveRequest" where
  "adminResolve s del =
     \<lparr>rr_userId = Some ''adm'', rr_id = 0, rr_status = Some (JStr s),
      rr_resolutionNotes = None, rr_deleteDuplicate = del\<rparr>"


section \<open>Properties\<close>

subsection \<open>Rounding to a double\<close>

lemma rne_cases: "rne m = \<lfloor>m\<rfloor> \<or> rne m = \<lfloor>m\<rfloor> + 1"
  by (simp add: rne_def Let_def)

lemma rne_of_int: "rne (of_int n) = n"
  by (simp add: rne_def)

lemma rne_mono: assumes "x \<le> y" shows "rne x \<le> rne y"
proof (cases "\<lfloor>x\<rfloor> < \<lfloor>y\<rfloor>")
  case True
  have "rne x \<le> \<lfloor>x\<rfloor> + 1" using rne_cases[of x] by auto
  moreover have "\<lfloor>y\<rfloor> \<le> rne y" using rne_cases[of y] by auto
  ultimately show ?thesis using True by linarith
next
  case False
  with assms have eq: "\<lfloor>x\<rfloor> = \<lfloor>y\<rfloor>" using floor_mono[of x y] by linarith
  then have "x - of_int \<lfloor>x\<rfloor> \<le> y - of_int \<lfloor>y\<rfloor>" using assms by simp
  then show ?thesis using eq by (auto simp: rne_def Let_def)
qed

lemma expo_bounds:
  assumes "x \<noteq> 0"
  shows "2 powi (expo x) \<le> \<bar>x\<bar>" and "\<bar>x\<bar> < 2 powi (expo x + 1)"
proof -
  obtain p q where pq: "quotient_of \<bar>x\<bar> = (p, q)" by (cases "quotient_of \<bar>x\<bar>")
  have q: "0 < q" using quotient_of_denom_pos[OF pq] .
  have ax: "\<bar>x\<bar> = of_int p / of_int q" using quotient_of_div[OF pq] .
  have "0 < \<bar>x\<bar>" using assms by simp
  then have p: "0 < p" using ax q by (simp add: zero_less_divide_iff)
  let ?bp = "bitlen p" and ?bq = "bitlen q"
  have bp: "2 ^ nat (?bp - 1) \<le> p" "p < 2 ^ nat ?bp" using bitlen_bounds[OF p] by auto
  have bq: "2 ^ nat (?bq - 1) \<le> q" "q < 2 ^ nat ?bq" using bitlen_bounds[OF q] by auto
  have bp1: "1 \<le> ?bp" using p bitlen_eq_zero_iff[of p] bitlen_nonneg[of p] by (cases "?bp = 0") auto
  have bq1: "1 \<le> ?bq" using q bitlen_eq_zero_iff[of q] bitlen_nonneg[of q] by (cases "?bq = 0") auto
  have P1: "(2::rat) powi (?bp - 1) \<le> of_int p"
    using bp(1) bp1 by (simp add: power_int_def)
  have P2: "of_int p < (2::rat) powi ?bp"
    using bp(2) bp1 by (simp add: power_int_def)
  have Q1: "(2::rat) powi (?bq - 1) \<le> of_int q"
    using bq(1) bq1 by (simp add: power_int_def)
  have Q2: "of_int q < (2::rat) powi ?bq"
    using bq(2) bq1 by (simp add: power_int_def)
  have qr: "(0::rat) < of_int q" using q by simp
  have up: "\<bar>x\<bar> < 2 powi (?bp - ?bq + 1)"
  proof -
    have "of_int p < (2::rat) powi (?bp - ?bq + 1) * 2 powi (?bq - 1)"
      using P2 by (simp flip: power_int_add)
    also have "\<dots> \<le> 2 powi (?bp - ?bq + 1) * of_int q"
      using Q1 by (simp add: mult_left_mono)
    finally show ?thesis using qr by (simp add: ax pos_divide_less_eq)
  qed
  have lo: "2 powi (?bp - ?bq - 1) \<le> \<bar>x\<bar>"
  proof -
    have "(2::rat) powi (?bp - ?bq - 1) * of_int q \<le> 2 powi (?bp - ?bq - 1) * 2 powi ?bq"
      using Q2 by (simp add: mult_left_mono)
    also have "\<dots> = 2 powi (?bp - 1)" by (simp flip: power_int_add)
    also have "\<dots> \<le> of_int p" by (rule P1)
    finally show ?thesis using qr by (simp add: ax pos_le_divide_eq)
  qed
  show "2 powi (expo x) \<le> \<bar>x\<bar>"
    using lo by (auto simp: expo_def pq Let_def)
  show "\<bar>x\<bar> < 2 powi (expo x + 1)"
    using up by (auto simp: expo_def pq Let_def not_le)
qed

lemma expo_mono:
  assumes "0 < x" "x \<le> y"
  shows "expo x \<le> expo y"
proof (rule ccontr)
  assume "\<not> expo x \<le> expo y"
  then have "expo y + 1 \<le> expo x" by simp
  then have "(2::rat) powi (expo y + 1) \<le> 2 powi (expo x)"
    by (intro power_int_increasing) auto
  moreover have "\<bar>y\<bar> < 2 powi (expo y + 1)" using expo_bounds(2)[of y] assms by simp
  moreover have "2 powi (expo x) \<le> \<bar>x\<bar>" using expo_bounds(1)[of x] assms by simp
  ultimately show False using assms by simp
qed

lemma fl64_pos_bounds:
  assumes "0 < x"
  shows "2 powi (expo x) \<le> fl64 x" and "fl64 x \<le> 2 powi (expo x + 1)"
proof -
  let ?u = "(2::rat) powi (expo x - 52)"
  have u: "0 < ?u" by simp
  have fl: "fl64 x = of_int (rne (x / ?u)) * ?u" using assms by (simp add: fl64_def Let_def)
  have e52: "(2::rat) powi (expo x) = of_int (2 ^ 52) * ?u"
    by (simp add: power_int_diff)
  have e53: "(2::rat) powi (expo x + 1) = of_int (2 ^ 53) * ?u"
    by (simp add: power_int_diff power_int_add)
  have "of_int (2 ^ 52) \<le> x / ?u"
    using expo_bounds(1)[of x] assms u by (simp add: e52 pos_le_divide_eq)
  then have "rne (of_int (2 ^ 52)) \<le> rne (x / ?u)" by (rule rne_mono)
  then have "(2::int) ^ 52 \<le> rne (x / ?u)" by (simp only: rne_of_int)
  then have "(of_int (2 ^ 52) :: rat) \<le> of_int (rne (x / ?u))" by (simp only: of_int_le_iff)
  then show "2 powi (expo x) \<le> fl64 x"
    unfolding fl e52 using u by (simp only: mult_le_cancel_right_pos)
  have "x / ?u \<le> of_int (2 ^ 53)"
    using expo_bounds(2)[of x] assms u by (simp add: e53 pos_divide_le_eq)
  then have "rne (x / ?u) \<le> rne (of_int (2 ^ 53))" by (rule rne_mono)
  then have "rne (x / ?u) \<le> (2::int) ^ 53" by (simp only: rne_of_int)
  then have "(of_int (rne (x / ?u)) :: rat) \<le> of_int (2 ^ 53)" by (simp only: of_int_le_iff)
  then show "fl64 x \<le> 2 powi (expo x + 1)"
    unfolding fl e53 using u by (simp only: mult_le_cancel_right_pos)
qed

lemma fl64_pos: "0 < x \<Longrightarrow> 0 < fl64 x"
proof -
  assume "0 < x"
  then have "2 powi (expo x) \<le> fl64 x" by (rule fl64_pos_bounds)
  moreover have "(0::rat) < 2 powi (expo x)" by simp
  ultimately show ?thesis by linarith
qed

lemma fl64_zero: "fl64 0 = 0"
  by (simp add: fl64_def)

lemma fl64_mono_nonneg:
  assumes "0 \<le> x" "x \<le> y"
  shows "fl64 x \<le> fl64 y"
proof (cases "x = 0")
  case True
  then show ?thesis using assms fl64_pos[of y] by (cases "y = 0") (auto simp: fl64_zero)
next
  case False
  then have x: "0 < x" and y: "0 < y" using assms by auto
  show ?thesis
  proof (cases "expo x = expo y")
    case True
    let ?u = "(2::rat) powi (expo y - 52)"
    have u: "0 < ?u" by simp
    have "x / ?u \<le> y / ?u" using assms u by (simp add: divide_right_mono)
    then have "rne (x / ?u) \<le> rne (y / ?u)" by (rule rne_mono)
    then have "(of_int (rne (x / ?u)) :: rat) * ?u \<le> of_int (rne (y / ?u)) * ?u"
      using u by (simp only: mult_le_cancel_right_pos of_int_le_iff)
    then show ?thesis using x y True by (simp add: fl64_def Let_def)
  next
    case False
    then have "expo x + 1 \<le> expo y" using expo_mono[OF x assms(2)] by simp
    then have "(2::rat) powi (expo x + 1) \<le> 2 powi (expo y)"
      by (intro power_int_increasing) auto
    then show ?thesis using fl64_pos_bounds(2)[OF x] fl64_pos_bounds(1)[OF y] by linarith
  qed
qed

lemma fl64_nonneg: "0 \<le> x \<Longrightarrow> 0 \<le> fl64 x"
  using fl64_mono_nonneg[of 0 x] by (simp add: fl64_zero)

lemma fl64_one: "fl64 1 = 1"
  by code_simp

lemma fl64_le_one: "0 \<le> x \<Longrightarrow> x \<le> 1 \<Longrightarrow> fl64 x \<le> 1"
  using fl64_mono_nonneg[of x 1] by (simp add: fl64_one)

lemma expo_unique:
  assumes "2 powi k \<le> \<bar>y\<bar>" "\<bar>y\<bar> < 2 powi (k + 1)"
  shows "expo y = k"
proof -
  have y: "y \<noteq> 0"
  proof
    assume "y = 0"
    with assms(1) have "(2::rat) powi k \<le> 0" by simp
    moreover have "(0::rat) < 2 powi k" by (rule zero_less_power_int) simp
    ultimately show False by linarith
  qed
  have b1: "2 powi (expo y) \<le> \<bar>y\<bar>" and b2: "\<bar>y\<bar> < 2 powi (expo y + 1)"
    using expo_bounds[OF y] by auto
  have "\<not> k + 1 \<le> expo y"
  proof
    assume "k + 1 \<le> expo y"
    then have "(2::rat) powi (k + 1) \<le> 2 powi (expo y)" by (intro power_int_increasing) auto
    then show False using assms(2) b1 by linarith
  qed
  moreover have "\<not> expo y + 1 \<le> k"
  proof
    assume "expo y + 1 \<le> k"
    then have "(2::rat) powi (expo y + 1) \<le> 2 powi k" by (intro power_int_increasing) auto
    then show False using assms(1) b2 by linarith
  qed
  ultimately show ?thesis by linarith
qed

lemma fl64_scaled_int:
  assumes "2 ^ 52 \<le> \<bar>n\<bar>" "\<bar>n\<bar> \<le> 2 ^ 53"
  shows "fl64 (of_int n * 2 powi e) = of_int n * 2 powi e"
proof (cases "\<bar>n\<bar> = 2 ^ 53")
  case True
  let ?y = "(of_int n :: rat) * 2 powi e"
  have abs: "\<bar>?y\<bar> = 2 powi (e + 53)"
    using True by (simp add: abs_mult power_int_add flip: of_int_abs)
  have "expo ?y = e + 53"
    by (rule expo_unique) (simp_all add: abs power_int_add)
  moreover have "?y \<noteq> 0" using abs by auto
  moreover have "?y / 2 powi (e + 53 - 52) = of_int (n div 2)"
  proof -
    have "n = 2 ^ 53 \<or> n = - (2 ^ 53)" using True by linarith
    then show ?thesis by (auto simp: power_int_add)
  qed
  moreover have "of_int (n div 2) * (2::rat) powi (e + 53 - 52) = ?y"
  proof -
    have "n = 2 ^ 53 \<or> n = - (2 ^ 53)" using True by linarith
    then show ?thesis by (auto simp: power_int_add)
  qed
  ultimately show ?thesis by (simp add: fl64_def Let_def rne_of_int)
next
  case False
  let ?y = "(of_int n :: rat) * 2 powi e"
  have n: "\<bar>n\<bar> < 2 ^ 53" using False assms(2) by linarith
  have absn: "(2::rat) ^ 52 \<le> \<bar>of_int n\<bar>" "\<bar>of_int n :: rat\<bar> < 2 ^ 53"
    using assms(1) n by (simp_all flip: of_int_abs add: of_int_power_le_of_int_cancel_iff of_int_less_numeral_power_cancel_iff numeral_power_le_of_int_cancel_iff)
  have lo: "2 powi (e + 52) \<le> \<bar>?y\<bar>"
    using absn(1) by (simp add: abs_mult power_int_add mult.commute)
  have hi: "\<bar>?y\<bar> < 2 powi (e + 52 + 1)"
    using absn(2) by (simp add: abs_mult power_int_add mult.commute)
  have "expo ?y = e + 52" by (rule expo_unique[OF lo hi])
  moreover have "?y \<noteq> 0"
  proof
    assume "?y = 0"
    with lo have "(2::rat) powi (e + 52) \<le> 0" by simp
    moreover have "(0::rat) < 2 powi (e + 52)" by (rule zero_less_power_int) simp
    ultimately show False by linarith
  qed
  ultimately show ?thesis by (simp add: fl64_def Let_def rne_of_int)
qed

lemma rne_range:
  assumes "2 ^ 52 \<le> \<bar>m\<bar>" "\<bar>m\<bar> \<le> 2 ^ 53"
  shows "2 ^ 52 \<le> \<bar>rne m\<bar> \<and> \<bar>rne m\<bar> \<le> 2 ^ 53"
proof (cases "0 \<le> m")
  case True
  then have "of_int (2 ^ 52) \<le> m" "m \<le> of_int (2 ^ 53)" using assms by simp_all
  then have "rne (of_int (2 ^ 52)) \<le> rne m" "rne m \<le> rne (of_int (2 ^ 53))"
    by (auto intro: rne_mono)
  then show ?thesis by (simp only: rne_of_int) simp
next
  case False
  then have "m \<le> of_int (- (2 ^ 52))" "of_int (- (2 ^ 53)) \<le> m" using assms by simp_all
  then have "rne m \<le> rne (of_int (- (2 ^ 52)))" "rne (of_int (- (2 ^ 53))) \<le> rne m"
    by (auto intro: rne_mono)
  then show ?thesis by (simp only: rne_of_int) simp
qed

lemma fl64_idem: "fl64 (fl64 x) = fl64 x"
proof (cases "x = 0")
  case True
  then show ?thesis by (simp add: fl64_zero)
next
  case False
  let ?u = "(2::rat) powi (expo x - 52)"
  have u: "0 < ?u" by simp
  have fl: "fl64 x = of_int (rne (x / ?u)) * ?u" using False by (simp add: fl64_def Let_def)
  have e52: "(2::rat) powi (expo x) = 2 ^ 52 * ?u" by (simp add: power_int_diff)
  have e53: "(2::rat) powi (expo x + 1) = 2 ^ 53 * ?u" by (simp add: power_int_diff power_int_add)
  have "\<bar>x / ?u\<bar> = \<bar>x\<bar> / ?u" by (simp add: abs_mult)
  moreover have "2 ^ 52 \<le> \<bar>x\<bar> / ?u"
    using expo_bounds(1)[OF False] u by (simp add: e52 pos_le_divide_eq)
  moreover have "\<bar>x\<bar> / ?u \<le> 2 ^ 53"
    using expo_bounds(2)[OF False] u by (simp add: e53 pos_divide_le_eq)
  ultimately have "2 ^ 52 \<le> \<bar>x / ?u\<bar>" "\<bar>x / ?u\<bar> \<le> 2 ^ 53" by simp_all
  then have "2 ^ 52 \<le> \<bar>rne (x / ?u)\<bar> \<and> \<bar>rne (x / ?u)\<bar> \<le> 2 ^ 53" by (rule rne_range)
  then show ?thesis unfolding fl using fl64_scaled_int by blast
qed

text \<open>
  Integers up to \<open>2 ^ 53\<close> in absolute value are doubles: rounding leaves them as they
  are, which is why lengths, counters and matrix cells are computed on \<open>nat\<close> and \<open>int\<close>.
\<close>

lemma fl64_of_int:
  assumes "\<bar>n\<bar> \<le> 2 ^ 53"
  shows "fl64 (of_int n) = of_int n"
proof (cases "n = 0")
  case True
  then show ?thesis by (simp add: fl64_zero)
next
  case False
  let ?x = "of_int n :: rat"
  let ?k = "expo ?x"
  have x: "?x \<noteq> 0" using False by simp
  have lo: "2 powi ?k \<le> \<bar>?x\<bar>" and hi: "\<bar>?x\<bar> < 2 powi (?k + 1)"
    using expo_bounds[OF x] by auto
  have ax: "\<bar>?x\<bar> \<le> 2 powi 53" using assms by (simp flip: of_int_abs add: of_int_le_numeral_power_cancel_iff)
  have k53: "?k \<le> 53"
  proof (rule ccontr)
    assume "\<not> ?k \<le> 53"
    then have "53 + 1 \<le> ?k" by simp
    then have "(2::rat) powi (53 + 1) \<le> 2 powi ?k" by (intro power_int_increasing) auto
    moreover have "(2::rat) powi 53 < 2 powi (53 + 1)" by simp
    ultimately show False using lo ax by linarith
  qed
  show ?thesis
  proof (cases "?k = 53")
    case True
    then have "\<bar>?x\<bar> = 2 powi 53" using lo ax by simp
    then have "\<bar>n\<bar> = 2 ^ 53" by (simp flip: of_int_abs)
    then show ?thesis using fl64_scaled_int[of n 0] by simp
  next
    case False
    then have k52: "?k \<le> 52" using k53 by simp
    let ?j = "nat (52 - ?k)"
    let ?m = "n * 2 ^ ?j"
    have pj: "(2::rat) ^ ?j = 2 powi (52 - ?k)" using k52 by (simp add: power_int_def)
    have m: "(of_int ?m :: rat) = ?x * 2 powi (52 - ?k)" by (simp add: pj)
    have "\<bar>of_int ?m :: rat\<bar> = \<bar>?x\<bar> * 2 powi (52 - ?k)" by (simp only: m abs_mult) simp
    moreover have "2 powi ?k * 2 powi (52 - ?k) \<le> \<bar>?x\<bar> * (2::rat) powi (52 - ?k)"
      using lo by (intro mult_right_mono) auto
    moreover have "\<bar>?x\<bar> * (2::rat) powi (52 - ?k) \<le> 2 powi (?k + 1) * 2 powi (52 - ?k)"
      using hi by (intro mult_right_mono) auto
    moreover have "(2::rat) powi ?k * 2 powi (52 - ?k) = 2 ^ 52"
      by (simp flip: power_int_add)
    moreover have "(2::rat) powi (?k + 1) * 2 powi (52 - ?k) = 2 ^ 53"
      by (simp flip: power_int_add)
    ultimately have "(2::rat) ^ 52 \<le> \<bar>of_int ?m\<bar>" "\<bar>of_int ?m :: rat\<bar> \<le> 2 ^ 53" by simp_all
    then have "(2::rat) ^ 52 \<le> of_int \<bar>?m\<bar>" "(of_int \<bar>?m\<bar> :: rat) \<le> 2 ^ 53" by simp_all
    then have b: "2 ^ 52 \<le> \<bar>?m\<bar>" "\<bar>?m\<bar> \<le> 2 ^ 53"
      by (simp_all only: numeral_power_le_of_int_cancel_iff of_int_le_numeral_power_cancel_iff)
    have "(2::rat) powi (52 - ?k) * 2 powi (?k - 52) = 1"
      by (simp flip: power_int_add)
    then have e: "?x = of_int ?m * 2 powi (?k - 52)"
      by (simp only: m mult.assoc)
    have "fl64 (of_int ?m * 2 powi (?k - 52)) = of_int ?m * 2 powi (?k - 52)"
      by (rule fl64_scaled_int[OF b])
    then show ?thesis by (simp only: flip: e)
  qed
qed

subsection \<open>The matrix fill computes the recurrence\<close>

declare initRows.simps [simp del] initCols.simps [simp del]
declare fillRow.simps [simp del] fillRows.simps [simp del]

lemma initRows_eq:
  "initRows i n m = (\<lambda>r. if i \<le> r \<and> r \<le> n then Some (Map.empty(0 \<mapsto> r)) else m r)"
proof (induction i n m rule: initRows.induct)
  case (1 i n m)
  show ?case
  proof (cases "i \<le> n")
    case True
    have "initRows i n m = initRows (Suc i) n (m(i \<mapsto> Map.empty(0 \<mapsto> i)))"
      using True by (subst initRows.simps) simp
    also have "\<dots> = (\<lambda>r. if Suc i \<le> r \<and> r \<le> n then Some (Map.empty(0 \<mapsto> r))
                         else (m(i \<mapsto> Map.empty(0 \<mapsto> i))) r)"
      using "1.IH"[OF True] .
    also have "\<dots> = (\<lambda>r. if i \<le> r \<and> r \<le> n then Some (Map.empty(0 \<mapsto> r)) else m r)"
      using True by (auto simp: fun_eq_iff)
    finally show ?thesis .
  next
    case False
    have "initRows i n m = m"
      using False by (subst initRows.simps) simp
    also have "\<dots> = (\<lambda>r. if i \<le> r \<and> r \<le> n then Some (Map.empty(0 \<mapsto> r)) else m r)"
      using False by (auto simp: fun_eq_iff)
    finally show ?thesis .
  qed
qed

lemma initCols_eq:
  "m 0 = Some r0 \<Longrightarrow>
   initCols j n m = Some (m(0 \<mapsto> (\<lambda>c. if j \<le> c \<and> c \<le> n then Some c else r0 c)))"
proof (induction j n m arbitrary: r0 rule: initCols.induct)
  case (1 j n m)
  show ?case
  proof (cases "j \<le> n")
    case True
    let ?m' = "m(0 \<mapsto> r0(j \<mapsto> j))"
    have m': "?m' 0 = Some (r0(j \<mapsto> j))" by simp
    have "initCols j n m = initCols (Suc j) n ?m'"
      using True "1.prems" by (subst initCols.simps) simp
    also have "\<dots> = Some (?m'(0 \<mapsto> (\<lambda>c. if Suc j \<le> c \<and> c \<le> n then Some c else (r0(j \<mapsto> j)) c)))"
      using "1.IH"[OF True "1.prems" m'] .
    also have "(\<lambda>c. if Suc j \<le> c \<and> c \<le> n then Some c else (r0(j \<mapsto> j)) c) =
               (\<lambda>c. if j \<le> c \<and> c \<le> n then Some c else r0 c)"
      using True by (auto simp: fun_eq_iff)
    finally show ?thesis by (simp add: fun_eq_iff)
  next
    case False
    then have "(\<lambda>c. if j \<le> c \<and> c \<le> n then Some c else r0 c) = r0" by (auto simp: fun_eq_iff)
    moreover have "initCols j n m = Some m" using False by (subst initCols.simps) simp
    moreover have "m(0 \<mapsto> r0) = m" using "1.prems" by (auto simp: fun_eq_iff)
    ultimately show ?thesis by simp
  qed
qed

lemma spec_d_sym: "spec_d a b i j = spec_d b a j i"
proof (induction a b i j rule: spec_d.induct)
  case (1 a b j)
  then show ?case by (cases j) simp_all
next
  case (2 a b i)
  then show ?case by simp
next
  case (3 a b i j)
  then show ?case by (simp add: min.commute min.left_commute eq_commute)
qed

lemma spec_d_refl: "i \<le> length s \<Longrightarrow> spec_d s s i i = 0"
  by (induction i) simp_all

lemma spec_d_le_max: "spec_d a b i j \<le> max i j"
  by (induction a b i j rule: spec_d.induct) auto

lemma spec_d_col0: "spec_d a b i 0 = i"
  by (cases i) simp_all

lemma cellValue_correct:
  assumes "rowFilled str1 str2 i' (Suc (length str1)) prev"
    and "rowFilled str1 str2 (Suc i') (Suc j') cur"
    and "i' < length str2" and "j' < length str1"
  shows "cellValue str1 str2 prev cur i' j' = Some (spec_d str2 str1 (Suc i') (Suc j'))"
proof -
  have p1: "prev j' = Some (spec_d str2 str1 i' j')"
    and p2: "prev (Suc j') = Some (spec_d str2 str1 i' (Suc j'))"
    using assms(1,4) by (simp_all add: rowFilled_def)
  have c1: "cur j' = Some (spec_d str2 str1 (Suc i') j')"
    using assms(2) by (simp add: rowFilled_def)
  have ch: "charAt str2 i' = charAt str1 j' \<longleftrightarrow> str2 ! i' = str1 ! j'"
    using assms(3,4) by (simp add: charAt_def)
  show ?thesis
    by (simp add: cellValue_def ch p1 p2 c1 min3_def plus1_def min.commute min.left_commute)
qed

lemma fillRow_correct:
  assumes "m i' = Some prev" and "rowFilled str1 str2 i' (Suc (length str1)) prev"
    and "m (Suc i') = Some cur" and "rowFilled str1 str2 (Suc i') j cur"
    and "1 \<le> j" and "i' < length str2"
  shows "\<exists>cur'. fillRow str1 str2 (Suc i') j m = Some (m(Suc i' \<mapsto> cur')) \<and>
                rowFilled str1 str2 (Suc i') (Suc (length str1)) cur'"
  using assms
proof (induction "Suc (length str1) - j" arbitrary: j m cur)
  case 0
  then have fin: "\<not> j \<le> length str1" by simp
  have "fillRow str1 str2 (Suc i') j m = Some m"
    using fin by (subst fillRow.simps) simp
  moreover have "m(Suc i' \<mapsto> cur) = m" using "0.prems"(3) by (auto simp: fun_eq_iff)
  moreover have "rowFilled str1 str2 (Suc i') (Suc (length str1)) cur"
    using "0.prems"(4) fin by (simp add: rowFilled_def)
  ultimately show ?case by metis
next
  case (Suc k)
  then have le: "j \<le> length str1" by simp
  obtain j' where j: "j = Suc j'" using Suc.prems(5) by (cases j) auto
  let ?v = "cellValue str1 str2 prev cur i' j'"
  let ?cur = "cur(j := ?v)"
  let ?m = "m(Suc i' \<mapsto> ?cur)"
  have v: "?v = Some (spec_d str2 str1 (Suc i') (Suc j'))"
    using cellValue_correct[of str1 str2 i' prev j' cur] Suc.prems le j by simp
  have step: "fillRow str1 str2 (Suc i') j m = fillRow str1 str2 (Suc i') (Suc j) ?m"
    using le j Suc.prems(1,3) by (subst fillRow.simps) simp
  have filled: "rowFilled str1 str2 (Suc i') (Suc j) ?cur"
    using Suc.prems(4) v j by (auto simp: rowFilled_def less_Suc_eq)
  have "\<exists>cur'. fillRow str1 str2 (Suc i') (Suc j) ?m = Some (?m(Suc i' \<mapsto> cur')) \<and>
                rowFilled str1 str2 (Suc i') (Suc (length str1)) cur'"
  proof (rule Suc.hyps(1))
    show "k = Suc (length str1) - Suc j" using Suc.hyps(2) by simp
    show "?m i' = Some prev" using Suc.prems(1) by simp
    show "rowFilled str1 str2 i' (Suc (length str1)) prev" by (rule Suc.prems(2))
    show "?m (Suc i') = Some ?cur" by simp
    show "rowFilled str1 str2 (Suc i') (Suc j) ?cur" by (rule filled)
    show "1 \<le> Suc j" by simp
    show "i' < length str2" by (rule Suc.prems(6))
  qed
  then show ?case unfolding step by simp
qed

lemma fillRows_correct:
  assumes "1 \<le> i"
    and "rowsFilled str1 str2 0 i (Suc (length str1)) m"
    and "rowsFilled str1 str2 i (Suc (length str2)) 1 m"
  shows "\<exists>m'. fillRows str1 str2 i m = Some m' \<and>
               rowsFilled str1 str2 0 (Suc (length str2)) (Suc (length str1)) m'"
  using assms
proof (induction "Suc (length str2) - i" arbitrary: i m)
  case 0
  then have fin: "\<not> i \<le> length str2" by simp
  have "fillRows str1 str2 i m = Some m"
    using fin by (subst fillRows.simps) simp
  moreover have "rowsFilled str1 str2 0 (Suc (length str2)) (Suc (length str1)) m"
    using "0.prems"(2) fin by (simp add: rowsFilled_def)
  ultimately show ?case by simp
next
  case (Suc k)
  then have le: "i \<le> length str2" by simp
  obtain i' where i: "i = Suc i'" using Suc.prems(1) by (cases i) auto
  obtain prev where prev: "m i' = Some prev" "rowFilled str1 str2 i' (Suc (length str1)) prev"
    using Suc.prems(2) i by (auto simp: rowsFilled_def)
  obtain cur where cur: "m (Suc i') = Some cur" "rowFilled str1 str2 (Suc i') 1 cur"
    using Suc.prems(3) i le by (auto simp: rowsFilled_def)
  obtain cur' where cur': "fillRow str1 str2 (Suc i') 1 m = Some (m(Suc i' \<mapsto> cur'))"
      "rowFilled str1 str2 (Suc i') (Suc (length str1)) cur'"
    using fillRow_correct[OF prev cur] le i by auto
  let ?m = "m(Suc i' \<mapsto> cur')"
  have step: "fillRows str1 str2 i m = fillRows str1 str2 (Suc i) ?m"
    using le i cur'(1) by (subst fillRows.simps) simp
  have "\<exists>m'. fillRows str1 str2 (Suc i) ?m = Some m' \<and>
               rowsFilled str1 str2 0 (Suc (length str2)) (Suc (length str1)) m'"
  proof (rule Suc.hyps(1))
    show "k = Suc (length str2) - Suc i" using Suc.hyps(2) by simp
    show "1 \<le> Suc i" by simp
    show "rowsFilled str1 str2 0 (Suc i) (Suc (length str1)) ?m"
      using Suc.prems(2) cur'(2) i by (auto simp: rowsFilled_def less_Suc_eq)
    show "rowsFilled str1 str2 (Suc i) (Suc (length str2)) 1 ?m"
      using Suc.prems(3) i by (auto simp: rowsFilled_def)
  qed
  then show ?case unfolding step .
qed

lemma levenshteinDistance_spec_d:
  "levenshteinDistance str1 str2 = Some (spec_d str2 str1 (length str2) (length str1))"
proof -
  let ?n1 = "length str1" and ?n2 = "length str2"
  let ?mr = "initRows 0 ?n2 Map.empty"
  let ?r0 = "\<lambda>c. if 0 \<le> c \<and> c \<le> ?n1 then Some c else (Map.empty(0 \<mapsto> 0)) c"
  let ?m0 = "?mr(0 \<mapsto> ?r0)"
  have mr: "?mr = (\<lambda>r. if 0 \<le> r \<and> r \<le> ?n2 then Some (Map.empty(0 \<mapsto> r)) else None)"
    by (simp only: initRows_eq)
  have mr0: "?mr 0 = Some (Map.empty(0 \<mapsto> 0))" by (simp add: mr)
  have init: "initCols 0 ?n1 ?mr = Some ?m0"
    by (rule initCols_eq[of ?mr "Map.empty(0 \<mapsto> 0)" 0 ?n1, OF mr0])
  have top: "rowsFilled str1 str2 0 1 (Suc ?n1) ?m0"
    by (auto simp: rowsFilled_def rowFilled_def)
  have rest: "rowsFilled str1 str2 1 (Suc ?n2) 1 ?m0"
    by (auto simp: rowsFilled_def rowFilled_def mr spec_d_col0)
  obtain m' where m': "fillRows str1 str2 1 ?m0 = Some m'"
      "rowsFilled str1 str2 0 (Suc ?n2) (Suc ?n1) m'"
    using fillRows_correct[OF _ top rest] by auto
  obtain row where row: "m' ?n2 = Some row" "rowFilled str1 str2 ?n2 (Suc ?n1) row"
    using m'(2) by (auto simp: rowsFilled_def)
  have "levenshteinDistance str1 str2 = row ?n1"
    unfolding levenshteinDistance_def init option.case m'(1) row(1) by (rule refl)
  also have "\<dots> = Some (spec_d str2 str1 ?n2 ?n1)"
    using row(2) by (simp add: rowFilled_def)
  finally show ?thesis .
qed

lemma levenshteinDistance_eq:
  "levenshteinDistance str1 str2 = Some (spec_editDistance str1 str2)"
  unfolding spec_editDistance_def levenshteinDistance_spec_d
  by (simp add: spec_d_sym[of str2 str1])

lemma spec_editDistance_sym: "spec_editDistance s1 s2 = spec_editDistance s2 s1"
  by (simp add: spec_editDistance_def spec_d_sym[of s1 s2])

lemma spec_editDistance_refl: "spec_editDistance s s = 0"
  by (simp add: spec_editDistance_def spec_d_refl)

lemma spec_editDistance_le: "spec_editDistance s1 s2 \<le> max (length s1) (length s2)"
  by (simp add: spec_editDistance_def spec_d_le_max)

lemma calculateSimilarity_eq:
  "calculateSimilarity s1 s2 = Some (spec_textSimilarity s1 s2)"
proof (cases "length s1 > length s2")
  case True
  then have "max (length s1) (length s2) = length s1" by simp
  then show ?thesis
    using True
    by (simp add: calculateSimilarity_def spec_textSimilarity_def levenshteinDistance_eq Let_def)
next
  case False
  then have "max (length s1) (length s2) = length s2" by simp
  then show ?thesis
    using False
    by (simp add: calculateSimilarity_def spec_textSimilarity_def levenshteinDistance_eq Let_def
        spec_editDistance_sym[of s2 s1])
qed

lemma spec_textSimilarity_sym: "spec_textSimilarity s1 s2 = spec_textSimilarity s2 s1"
  by (simp add: spec_textSimilarity_def Let_def spec_editDistance_sym[of s1 s2] max.commute)

lemma spec_textSimilarity_refl: "spec_textSimilarity s s = 1"
  by (simp add: spec_textSimilarity_def Let_def spec_editDistance_refl jsdiv_def fl64_one)

lemma spec_textSimilarity_range:
  "0 \<le> spec_textSimilarity s1 s2 \<and> spec_textSimilarity s1 s2 \<le> 1"
proof (cases "max (length s1) (length s2) = 0")
  case True
  then show ?thesis by (simp add: spec_textSimilarity_def)
next
  case False
  let ?L = "max (length s1) (length s2)" and ?d = "spec_editDistance s1 s2"
  let ?q = "(of_int (int ?L - int ?d) :: rat) / of_nat ?L"
  have L: "(0::rat) < of_nat ?L" using False by (simp only: neq0_conv of_nat_0_less_iff)
  have d: "?d \<le> ?L" by (rule spec_editDistance_le)
  then have num: "(0::rat) \<le> of_int (int ?L - int ?d)" "(of_int (int ?L - int ?d) :: rat) \<le> of_nat ?L"
    by simp_all
  have q0: "0 \<le> ?q" using num(1) L by simp
  have q1: "?q \<le> 1" using num(2) L by (simp add: divide_le_eq_1)
  have "spec_textSimilarity s1 s2 = fl64 ?q"
    unfolding spec_textSimilarity_def Let_def jsdiv_def using False by (simp only: if_False)
  then show ?thesis using fl64_nonneg[OF q0] fl64_le_one[OF q0 q1] by simp
qed

subsection \<open>The scorer as a weighted formula\<close>

lemma jsnum_02: "jsnum (2/10) = 3602879701896397 / 18014398509481984"
  by code_simp

lemma jsnum_04: "jsnum (4/10) = 3602879701896397 / 9007199254740992"
  by code_simp

lemma jsnum_idem: "fl64 (jsnum q) = jsnum q"
  by (simp add: jsnum_def fl64_idem)

lemma jsnum_nonneg: "0 \<le> q \<Longrightarrow> 0 \<le> jsnum q"
  by (simp add: jsnum_def fl64_nonneg)

lemma jsadd_zero_left: "jsadd 0 (fl64 x) = fl64 x"
  by (simp add: jsadd_def fl64_idem)

lemma unit_interval_fl64: "0 \<le> x \<Longrightarrow> x \<le> 1 \<Longrightarrow> 0 \<le> fl64 x \<and> fl64 x \<le> 1"
  by (simp add: fl64_nonneg fl64_le_one)

lemma decay_range:
  assumes "0 \<le> x" "0 < k" "x \<le> k"
  shows "0 \<le> jssub 1 (jsdiv x k) \<and> jssub 1 (jsdiv x k) \<le> 1"
proof -
  have "0 \<le> x / k" "x / k \<le> 1" using assms by (simp_all add: divide_le_eq_1)
  then have q: "0 \<le> fl64 (x / k)" "fl64 (x / k) \<le> 1" by (simp_all add: unit_interval_fl64)
  then have "0 \<le> 1 - fl64 (x / k)" "1 - fl64 (x / k) \<le> 1" by simp_all
  then show ?thesis unfolding jssub_def jsdiv_def by (rule unit_interval_fl64)
qed

lemma dateSimilarity_range: "0 \<le> dateSimilarity d1 d2 \<and> dateSimilarity d1 d2 \<le> 1"
proof -
  let ?days = "jsdiv \<bar>jssub (of_int d1) (of_int d2)\<bar> (1000 * 60 * 60 * 24)"
  have "0 \<le> ?days" unfolding jsdiv_def by (rule fl64_nonneg) simp
  then show ?thesis
    using decay_range[of ?days 30] by (simp add: dateSimilarity_def Let_def)
qed

lemma ageSimilarity_range: "0 \<le> ageSimilarity a1 a2 \<and> ageSimilarity a1 a2 \<le> 1"
  using decay_range[of "\<bar>jssub (of_int a1) (of_int a2)\<bar>" 5]
  by (simp add: ageSimilarity_def Let_def)

lemma locationSimilarity_range: "0 \<le> locationSimilarity p1 p2 \<and> locationSimilarity p1 p2 \<le> 1"
  by (simp add: locationSimilarity_def)

lemma jsnum_pos: "0 < q \<Longrightarrow> 0 < jsnum q"
  by (simp add: jsnum_def fl64_pos)

lemma addFactor_bounds:
  assumes "0 \<le> fst t" "fst t \<le> snd t" "0 \<le> s" "s \<le> 1" "0 < w" "fl64 w = w"
  shows "0 \<le> fst (addFactor t s w) \<and> fst (addFactor t s w) \<le> snd (addFactor t s w)"
proof -
  have sw: "0 \<le> s * w" "s * w \<le> w"
    using assms(3,4,5) by (simp_all add: mult_left_le_one_le)
  have p: "0 \<le> fl64 (s * w)" "fl64 (s * w) \<le> w"
    using fl64_nonneg[OF sw(1)] fl64_mono_nonneg[OF sw] assms(6) by simp_all
  have lo: "0 \<le> fst t + fl64 (s * w)" using assms(1) p(1) by simp
  have le: "fst t + fl64 (s * w) \<le> snd t + w" using assms(2) p(2) by simp
  show ?thesis
    using fl64_nonneg[OF lo] fl64_mono_nonneg[OF lo le]
    by (simp add: addFactor_def jsadd_def jsmul_def)
qed

lemma foldl_addFactor_bounds:
  assumes "0 \<le> fst t" "fst t \<le> snd t"
    and "\<forall>(s, w)\<in>set fs. 0 \<le> s \<and> s \<le> 1 \<and> 0 < w \<and> fl64 w = w"
  shows "0 \<le> fst (foldl (\<lambda>t (s, w). addFactor t s w) t fs)
       \<and> fst (foldl (\<lambda>t (s, w). addFactor t s w) t fs)
           \<le> snd (foldl (\<lambda>t (s, w). addFactor t s w) t fs)"
  using assms
proof (induction fs arbitrary: t)
  case Nil
  then show ?case by simp
next
  case (Cons f fs)
  obtain s w where f: "f = (s, w)" by (cases f)
  have "0 \<le> fst (addFactor t s w) \<and> fst (addFactor t s w) \<le> snd (addFactor t s w)"
    using Cons.prems f by (intro addFactor_bounds) auto
  then show ?case using Cons.IH[of "addFactor t s w"] Cons.prems(3) f by simp
qed

lemma foldl_addFactor_split:
  "foldl (\<lambda>t (s, w). addFactor t s w) t fs =
     (foldl jsadd (fst t) (map (\<lambda>(s, w). jsmul s w) fs), foldl jsadd (snd t) (map snd fs))"
  by (induction fs arbitrary: t) (auto simp: addFactor_def)

lemma spec_weightedScore_eq:
  "spec_weightedScore fs = finalScore (foldl (\<lambda>t (s, w). addFactor t s w) (0, 0) fs)"
  by (simp add: spec_weightedScore_def finalScore_def foldl_addFactor_split Let_def)

lemma finalScore_range:
  assumes "0 \<le> fst t" "fst t \<le> snd t"
  shows "0 \<le> finalScore t \<and> finalScore t \<le> 1"
proof (cases "snd t > 0")
  case True
  then have "0 \<le> fst t / snd t" "fst t / snd t \<le> 1" using assms by (simp_all add: divide_le_eq_1)
  then show ?thesis using True by (simp add: finalScore_def jsdiv_def unit_interval_fl64)
next
  case False
  then show ?thesis by (simp add: finalScore_def)
qed

lemma spec_weightedScore_range:
  assumes "\<forall>(s, w)\<in>set fs. 0 \<le> s \<and> s \<le> 1 \<and> 0 < w \<and> fl64 w = w"
  shows "0 \<le> spec_weightedScore fs \<and> spec_weightedScore fs \<le> 1"
  unfolding spec_weightedScore_eq
  using foldl_addFactor_bounds[of "(0, 0)" fs] assms by (intro finalScore_range) auto

lemma spec_weightedScore_single:
  assumes "0 < w" "fl64 w = w"
  shows "spec_weightedScore [(s, w)] = jsdiv (jsmul s w) w"
  using assms by (simp add: spec_weightedScore_def jsadd_def jsmul_def fl64_idem)

lemma spec_weightedScore_Nil: "spec_weightedScore [] = 0"
  by (simp add: spec_weightedScore_def)

lemma compareName_fold:
  "compareName lc c1 c2 t = Some (foldl (\<lambda>t (s, w). addFactor t s w) t (nameFactor lc c1 c2))"
  by (simp add: compareName_def nameFactor_def calculateSimilarity_eq
      split: option.splits prod.splits)

lemma compareDate_fold:
  "compareDate c1 c2 t = foldl (\<lambda>t (s, w). addFactor t s w) t (dateFactor c1 c2)"
  by (simp add: compareDate_def dateFactor_def split: option.splits prod.splits)

lemma compareProvince_fold:
  "compareProvince c1 c2 t = foldl (\<lambda>t (s, w). addFactor t s w) t (provinceFactor c1 c2)"
  by (simp add: compareProvince_def provinceFactor_def split: option.splits prod.splits)

lemma compareAge_fold:
  "compareAge c1 c2 t = foldl (\<lambda>t (s, w). addFactor t s w) t (ageFactor c1 c2)"
  by (simp add: compareAge_def ageFactor_def split: option.splits prod.splits)

lemma pairScore_eq:
  "pairScore lc c1 c2 = Some (spec_weightedScore (applicableFactors lc c1 c2))"
  by (simp add: pairScore_def compareName_fold compareDate_fold compareProvince_fold
      compareAge_fold spec_weightedScore_eq applicableFactors_def)

lemma applicableFactors_good:
  "\<forall>(s, w)\<in>set (applicableFactors lc c1 c2). 0 \<le> s \<and> s \<le> 1 \<and> 0 < w \<and> fl64 w = w"
  by (auto simp: applicableFactors_def nameFactor_def dateFactor_def provinceFactor_def
      ageFactor_def jsnum_idem jsnum_pos spec_textSimilarity_range dateSimilarity_range
      ageSimilarity_range locationSimilarity_range
      split: option.splits prod.splits if_splits)

lemma pairScore_range:
  "\<exists>s. pairScore lc c1 c2 = Some s \<and> 0 \<le> s \<and> s \<le> 1"
  using spec_weightedScore_range[OF applicableFactors_good] by (simp add: pairScore_eq)

lemma pairScore_single:
  assumes "applicableFactors lc c1 c2 = [(s, w)]"
  shows "pairScore lc c1 c2 = Some (jsdiv (jsmul s w) w)"
proof -
  have "0 < w \<and> fl64 w = w" using applicableFactors_good[of lc c1 c2] assms by simp
  then show ?thesis using assms by (simp add: pairScore_eq spec_weightedScore_single)
qed

subsection \<open>The scan loops compute the candidate list\<close>

declare innerLoop.simps [simp del] outerLoop.simps [simp del]

lemma rowCandidates_step:
  assumes "j < length cases"
  shows "rowCandidates lc th cases i j =
           (if scoreAt lc cases i j \<ge> th then [candidateAt lc cases i j] else [])
           @ rowCandidates lc th cases i (Suc j)"
  using assms by (simp add: rowCandidates_def upt_conv_Cons)

lemma rowCandidates_done: "\<not> j < length cases \<Longrightarrow> rowCandidates lc th cases i j = []"
  by (simp add: rowCandidates_def)

lemma innerLoop_eq:
  assumes "i < length cases"
  shows "innerLoop lc th cases i j ds = Some (ds @ rowCandidates lc th cases i j)"
  using assms
proof (induction lc th cases i j ds rule: innerLoop.induct)
  case (1 lc th cases i j ds)
  show ?case
  proof (cases "j < length cases")
    case True
    let ?ds = "if scoreAt lc cases i j \<ge> th then ds @ [candidateAt lc cases i j] else ds"
    have ps: "pairScore lc (cases ! i) (cases ! j) = Some (scoreAt lc cases i j)"
      by (simp add: pairScore_eq scoreAt_def)
    have "innerLoop lc th cases i j ds = innerLoop lc th cases i (Suc j) ?ds"
      using True "1.prems" by (subst innerLoop.simps) (simp add: ps candidateAt_def)
    also have "\<dots> = Some (?ds @ rowCandidates lc th cases i (Suc j))"
      using "1.IH"[OF True "1.prems" ps "1.prems"]
      by (cases "scoreAt lc cases i j \<ge> th") (simp_all add: candidateAt_def)
    also have "\<dots> = Some (ds @ rowCandidates lc th cases i j)"
      by (simp add: rowCandidates_step[OF True])
    finally show ?thesis .
  next
    case False
    then show ?thesis
      by (subst innerLoop.simps) (simp add: rowCandidates_done)
  qed
qed

lemma allCandidates_step:
  assumes "i < length cases"
  shows "allCandidates lc th cases i =
           rowCandidates lc th cases i (Suc i) @ allCandidates lc th cases (Suc i)"
  using assms by (simp add: allCandidates_def upt_conv_Cons)

lemma allCandidates_done: "\<not> i < length cases \<Longrightarrow> allCandidates lc th cases i = []"
  by (simp add: allCandidates_def)

lemma outerLoop_eq:
  "outerLoop lc th cases i ds = Some (ds @ allCandidates lc th cases i)"
proof (induction lc th cases i ds rule: outerLoop.induct)
  case (1 lc th cases i ds)
  show ?case
  proof (cases "i < length cases")
    case True
    have inner: "innerLoop lc th cases i (Suc i) ds = Some (ds @ rowCandidates lc th cases i (Suc i))"
      by (rule innerLoop_eq[OF True])
    have "outerLoop lc th cases i ds =
            outerLoop lc th cases (Suc i) (ds @ rowCandidates lc th cases i (Suc i))"
      using True by (subst outerLoop.simps) (simp add: inner)
    also have "\<dots> = Some ((ds @ rowCandidates lc th cases i (Suc i)) @ allCandidates lc th cases (Suc i))"
      by (rule "1.IH"[OF True inner])
    also have "\<dots> = Some (ds @ allCandidates lc th cases i)"
      by (simp add: allCandidates_step[OF True])
    finally show ?thesis .
  next
    case False
    then show ?thesis
      by (subst outerLoop.simps) (simp add: allCandidates_done)
  qed
qed

lemma detect_eq:
  "detect lc F now req d =
     (case persistLoop F (dr_userId req) now
             (allCandidates lc (theThreshold req) (findManyApproved d) 0) d [] of
        (None, d') \<Rightarrow> (ServerError, d')
      | (Some created, d') \<Rightarrow> (OK created, d'))"
  by (simp add: detect_def outerLoop_eq theThreshold_def Let_def)

subsection \<open>The persistence loop\<close>

lemma caseExists_iff: "caseExists d a \<longleftrightarrow> (\<exists>c\<in>set (missingPersons d). mp_id c = a)"
  by (auto simp: caseExists_def find_None_iff)

lemma findUniquePair_None_iff:
  "findUniquePair d a b = None \<longleftrightarrow>
     \<not> (\<exists>x\<in>set (duplicateCases d). originalCaseId x = a \<and> duplicateCaseId x = b)"
  by (auto simp: findUniquePair_def find_None_iff)

lemma createDuplicate_Some:
  assumes "createDuplicate F u n c d = Some (row, d')"
  shows "d' = d\<lparr>duplicateCases := duplicateCases d @ [row], nextId := Suc (nextId d)\<rparr>"
    and "originalCaseId row = c_originalCaseId c"
    and "duplicateCaseId row = c_duplicateCaseId c"
    and "similarityScore row = c_similarityScore c"
    and "status row = PENDENTE"
    and "detectedBy row = u"
    and "dc_id row = nextId d"
  using assms by (auto simp: createDuplicate_def Let_def split: if_splits)

lemma createDuplicate_None_iff:
  "createDuplicate F u n c d = None \<longleftrightarrow>
     F (c_originalCaseId c) (c_duplicateCaseId c)
     \<or> findUniquePair d (c_originalCaseId c) (c_duplicateCaseId c) \<noteq> None
     \<or> \<not> caseExists d (c_originalCaseId c) \<or> \<not> caseExists d (c_duplicateCaseId c)"
  by (simp add: createDuplicate_def Let_def)

lemma persistLoop_shape:
  assumes "persistLoop F u n cs d acc = (r, d')"
  shows "missingPersons d' = missingPersons d \<and> auditLogs d' = auditLogs d
       \<and> (\<exists>new. duplicateCases d' = duplicateCases d @ new
              \<and> (\<forall>created. r = Some created \<longrightarrow> created = acc @ new))"
  using assms
proof (induction cs arbitrary: d acc)
  case Nil
  then show ?case by auto
next
  case (Cons c cs)
  show ?case
  proof (cases "findUniquePair d (c_originalCaseId c) (c_duplicateCaseId c)")
    case (Some e)
    then show ?thesis using Cons.prems Cons.IH[of d acc] by simp
  next
    case None
    show ?thesis
    proof (cases "createDuplicate F u n c d")
      case cn: None
      then show ?thesis using Cons.prems None by auto
    next
      case (Some p)
      obtain row d1 where p: "p = (row, d1)" by (cases p)
      have d1: "d1 = d\<lparr>duplicateCases := duplicateCases d @ [row], nextId := Suc (nextId d)\<rparr>"
        using createDuplicate_Some(1) Some p by blast
      have "persistLoop F u n cs d1 (acc @ [row]) = (r, d')"
        using Cons.prems None Some p by simp
      from Cons.IH[OF this] show ?thesis by (auto simp: d1)
    qed
  qed
qed

lemma findUniquePair_append:
  assumes "findUniquePair d a b \<noteq> None" "duplicateCases d' = duplicateCases d @ new"
  shows "findUniquePair d' a b \<noteq> None"
  using assms by (auto simp: findUniquePair_None_iff)

lemma persistLoop_registers:
  assumes "persistLoop F u n cs d acc = (Some created, d')"
  shows "\<forall>c\<in>set cs. findUniquePair d' (c_originalCaseId c) (c_duplicateCaseId c) \<noteq> None"
  using assms
proof (induction cs arbitrary: d acc)
  case Nil
  then show ?case by simp
next
  case (Cons c cs)
  show ?case
  proof (cases "findUniquePair d (c_originalCaseId c) (c_duplicateCaseId c)")
    case (Some e)
    then have run: "persistLoop F u n cs d acc = (Some created, d')" using Cons.prems by simp
    obtain new where "duplicateCases d' = duplicateCases d @ new"
      using persistLoop_shape[OF run] by blast
    then have "findUniquePair d' (c_originalCaseId c) (c_duplicateCaseId c) \<noteq> None"
      using Some findUniquePair_append[of d _ _ d' new] by simp
    then show ?thesis using Cons.IH[OF run] by simp
  next
    case None
    show ?thesis
    proof (cases "createDuplicate F u n c d")
      case cn: None
      then show ?thesis using Cons.prems None by simp
    next
      case (Some p)
      obtain row d1 where p: "p = (row, d1)" by (cases p)
      have d1: "duplicateCases d1 = duplicateCases d @ [row]"
        using createDuplicate_Some(1)[of F u n c d row d1] Some p by simp
      have row: "originalCaseId row = c_originalCaseId c" "duplicateCaseId row = c_duplicateCaseId c"
        using createDuplicate_Some(2,3)[of F u n c d row d1] Some p by simp_all
      have run: "persistLoop F u n cs d1 (acc @ [row]) = (Some created, d')"
        using Cons.prems None Some p by simp
      obtain new where "duplicateCases d' = duplicateCases d1 @ new"
        using persistLoop_shape[OF run] by blast
      moreover have "findUniquePair d1 (c_originalCaseId c) (c_duplicateCaseId c) \<noteq> None"
        using d1 row by (auto simp: findUniquePair_None_iff)
      ultimately have "findUniquePair d' (c_originalCaseId c) (c_duplicateCaseId c) \<noteq> None"
        using findUniquePair_append[of d1 _ _ d' new] by simp
      then show ?thesis using Cons.IH[OF run] by simp
    qed
  qed
qed

lemma persistLoop_all_registered:
  assumes "\<forall>c\<in>set cs. findUniquePair d (c_originalCaseId c) (c_duplicateCaseId c) \<noteq> None"
  shows "persistLoop F u n cs d acc = (Some acc, d)"
  using assms by (induction cs) auto

lemma persistLoop_succeeds:
  assumes "\<forall>c\<in>set cs. \<not> F (c_originalCaseId c) (c_duplicateCaseId c)
             \<and> caseExists d (c_originalCaseId c) \<and> caseExists d (c_duplicateCaseId c)"
  shows "\<exists>created d'. persistLoop F u n cs d acc = (Some created, d')"
  using assms
proof (induction cs arbitrary: d acc)
  case Nil
  then show ?case by simp
next
  case (Cons c cs)
  show ?case
  proof (cases "findUniquePair d (c_originalCaseId c) (c_duplicateCaseId c)")
    case (Some e)
    then show ?thesis using Cons.IH[of d acc] Cons.prems by simp
  next
    case None
    then have "createDuplicate F u n c d \<noteq> None"
      using Cons.prems by (simp add: createDuplicate_None_iff)
    then obtain row d1 where p: "createDuplicate F u n c d = Some (row, d1)" by auto
    have "missingPersons d1 = missingPersons d"
      using createDuplicate_Some(1)[OF p] by simp
    then have "\<forall>c\<in>set cs. \<not> F (c_originalCaseId c) (c_duplicateCaseId c)
             \<and> caseExists d1 (c_originalCaseId c) \<and> caseExists d1 (c_duplicateCaseId c)"
      using Cons.prems by (simp add: caseExists_iff)
    from Cons.IH[OF this, of "acc @ [row]"] show ?thesis using None p by simp
  qed
qed

subsection \<open>Candidates, thresholds and the handler of the detection pass\<close>

lemma scoreAt_range: "0 \<le> scoreAt lc cases i j \<and> scoreAt lc cases i j \<le> 1"
  unfolding scoreAt_def by (rule spec_weightedScore_range[OF applicableFactors_good])

lemma set_rowCandidates:
  "set (rowCandidates lc th cases i j) =
     {candidateAt lc cases i j' | j'. j \<le> j' \<and> j' < length cases \<and> th \<le> scoreAt lc cases i j'}"
  by (auto simp: rowCandidates_def)

lemma set_allCandidates:
  "set (allCandidates lc th cases i) =
     {candidateAt lc cases i' j' | i' j'.
        i \<le> i' \<and> i' < j' \<and> j' < length cases \<and> th \<le> scoreAt lc cases i' j'}"
proof -
  have "\<And>i' j'. i' < j' \<Longrightarrow> j' < length cases \<Longrightarrow> i' < length cases" by simp
  then show ?thesis
    by (fastforce simp: allCandidates_def set_rowCandidates Suc_le_eq)
qed

lemma allCandidates_above_one:
  assumes "1 < th"
  shows "allCandidates lc th cases i = []"
proof -
  have "set (allCandidates lc th cases i) = {}"
    using assms scoreAt_range[of lc cases] by (auto simp: set_allCandidates) (meson less_le_not_le order_trans)
  then show ?thesis by simp
qed

lemma rowCandidates_nonpositive:
  assumes "th \<le> 0"
  shows "rowCandidates lc th cases i j = rowCandidates lc 0 cases i j"
proof -
  have "\<And>j'. th \<le> scoreAt lc cases i j'" "\<And>j'. 0 \<le> scoreAt lc cases i j'"
    using assms scoreAt_range[of lc cases i] by (auto intro: order_trans)
  then show ?thesis by (simp add: rowCandidates_def)
qed

lemma allCandidates_nonpositive:
  "th \<le> 0 \<Longrightarrow> allCandidates lc th cases i = allCandidates lc 0 cases i"
  by (simp add: allCandidates_def rowCandidates_nonpositive[of th])

lemma findManyApproved_subset: "set (findManyApproved d) \<subseteq> set (missingPersons d)"
  by (auto simp: findManyApproved_def)

lemma findManyApproved_cong:
  "missingPersons d' = missingPersons d \<Longrightarrow> findManyApproved d' = findManyApproved d"
  by (simp add: findManyApproved_def)

lemma candidate_cases_exist:
  assumes "c \<in> set (allCandidates lc th (findManyApproved d) i)"
  shows "caseExists d (c_originalCaseId c) \<and> caseExists d (c_duplicateCaseId c)"
proof -
  obtain i' j' where ij: "i' < j'" "j' < length (findManyApproved d)"
      and c: "c = candidateAt lc (findManyApproved d) i' j'"
    using assms by (auto simp: set_allCandidates)
  have "findManyApproved d ! i' \<in> set (missingPersons d)"
       "findManyApproved d ! j' \<in> set (missingPersons d)"
    using ij findManyApproved_subset[of d] by (auto simp: subset_iff)
  then show ?thesis by (auto simp: c candidateAt_def caseExists_iff)
qed

lemma persistLoop_append:
  "persistLoop F u n (xs @ ys) d acc =
     (case persistLoop F u n xs d acc of
        (None, d') \<Rightarrow> (None, d')
      | (Some acc', d') \<Rightarrow> persistLoop F u n ys d' acc')"
  by (induction xs arbitrary: d acc) (auto split: option.splits prod.splits)

lemma detect_above_one:
  assumes "1 < t"
  shows "detect lc F now (req\<lparr>dr_threshold := Some t\<rparr>) d = (OK [], d)"
  using assms by (simp add: detect_eq theThreshold_def allCandidates_above_one)

lemma jsnum_11_10: "1 < jsnum (11/10)"
  by code_simp

lemma detect_nonpositive:
  assumes "t \<le> 0"
  shows "detect lc F now (req\<lparr>dr_threshold := Some t\<rparr>) d
           = detect lc F now (req\<lparr>dr_threshold := Some 0\<rparr>) d"
  using assms by (simp add: detect_eq theThreshold_def allCandidates_nonpositive[of t])

lemma detect_not_BadRequest: "fst (detect lc F now req d) \<noteq> BadRequest"
  by (simp add: detect_eq split: prod.splits option.splits)

subsection \<open>The resolution route\<close>

lemma statusOfString_valid:
  "s \<in> set [''CONFIRMADO'', ''REJEITADO'', ''RESOLVIDO''] \<longleftrightarrow>
     (\<exists>st. statusOfString s = Some st \<and> st \<noteq> PENDENTE)"
  by (auto simp: statusOfString_def)

lemma statusOfString_CONFIRMADO: "statusOfString s = Some CONFIRMADO \<longleftrightarrow> s = ''CONFIRMADO''"
  by (auto simp: statusOfString_def)

text \<open>
  Only a string passes \<open>isIn\<close> with the three names, so after validation the update
  always has a status to store, and never \<open>PENDENTE\<close>.
\<close>

lemma isIn_status:
  "isIn [''CONFIRMADO'', ''REJEITADO'', ''RESOLVIDO''] v \<longleftrightarrow>
     (\<exists>s. v = Some (JStr s) \<and> s \<in> set [''CONFIRMADO'', ''REJEITADO'', ''RESOLVIDO''])"
proof (cases v)
  case None
  then show ?thesis by (simp add: isIn_def)
next
  case (Some x)
  then show ?thesis by (cases x) (auto simp: isIn_def)
qed

lemma validationPasses_status:
  assumes "validationPasses req"
  shows "\<exists>st. statusData (rr_status req) = Some st \<and> st \<noteq> PENDENTE"
proof -
  from assms obtain s where s: "rr_status req = Some (JStr s)"
      "s \<in> set [''CONFIRMADO'', ''REJEITADO'', ''RESOLVIDO'']"
    unfolding validationPasses_def isIn_status by blast
  from s(2) obtain st where "statusOfString s = Some st" "st \<noteq> PENDENTE"
    using statusOfString_valid by blast
  then show ?thesis using s(1) by (simp add: statusData_def)
qed

lemma statusData_CONFIRMADO:
  "statusData v = Some CONFIRMADO \<longleftrightarrow> v = Some (JStr ''CONFIRMADO'')"
proof (cases v)
  case None
  then show ?thesis by (simp add: statusData_def)
next
  case (Some x)
  then show ?thesis by (cases x) (simp_all add: statusData_def statusOfString_CONFIRMADO)
qed

text \<open>
  The values of the delete flag that pass the validator, and those among them that the
  handler takes for true.
\<close>

lemma isBoolean_iff:
  "isBoolean v \<longleftrightarrow>
     v \<in> {Some (JBool True), Some (JBool False), Some (JNum 1), Some (JNum 0),
          Some (JStr ''true''), Some (JStr ''false''), Some (JStr ''1''), Some (JStr ''0'')}"
proof (cases v)
  case None
  then show ?thesis by (simp add: isBoolean_def)
next
  case (Some x)
  then show ?thesis by (cases x) (auto simp: isBoolean_def)
qed

lemma isBoolean_truthy:
  assumes "isBoolean v"
  shows "truthy v \<longleftrightarrow> v \<noteq> Some (JBool False) \<and> v \<noteq> Some (JNum 0)"
  using assms unfolding isBoolean_iff by auto


lemma findDuplicate_mem: "findDuplicate d i = Some dup \<Longrightarrow> dup \<in> set (duplicateCases d)"
  by (auto simp: findDuplicate_def find_Some_iff)



lemma deleteMissingPerson_Some:
  assumes "caseExists d a"
  shows "deleteMissingPerson d a =
     Some (d\<lparr>missingPersons := filter (\<lambda>c. mp_id c \<noteq> a) (missingPersons d),
             duplicateCases :=
               filter (\<lambda>x. originalCaseId x \<noteq> a \<and> duplicateCaseId x \<noteq> a) (duplicateCases d)\<rparr>)"
  using assms by (simp add: deleteMissingPerson_def)

lemma caseExists_updateRows:
  "caseExists (d\<lparr>duplicateCases := xs\<rparr>) a = caseExists d a"
  by (simp add: caseExists_def)

text \<open>The middleware writes to the audit log and to nothing else.\<close>

lemma auditLogMiddleware_tables:
  "missingPersons (auditLogMiddleware a e u i m b d) = missingPersons d"
  "duplicateCases (auditLogMiddleware a e u i m b d) = duplicateCases d"
  "nextId (auditLogMiddleware a e u i m b d) = nextId d"
  by (simp_all add: auditLogMiddleware_def split: option.splits)

lemma auditLogMiddleware_reads:
  "caseExists (auditLogMiddleware a e u i m b d) x = caseExists d x"
  "findDuplicate (auditLogMiddleware a e u i m b d) k = findDuplicate d k"
  by (simp_all add: caseExists_def findDuplicate_def auditLogMiddleware_tables)


lemma resolve_handler:
  "fst (resolve now req d) = fst (resolveHandler now req d)"
  "missingPersons (snd (resolve now req d)) = missingPersons (snd (resolveHandler now req d))"
  "duplicateCases (snd (resolve now req d)) = duplicateCases (snd (resolveHandler now req d))"
  "caseExists (snd (resolve now req d)) x = caseExists (snd (resolveHandler now req d)) x"
  "findDuplicate (snd (resolve now req d)) k = findDuplicate (snd (resolveHandler now req d)) k"
  by (simp_all add: resolve_def resolveAudit_def auditLogMiddleware_tables
        auditLogMiddleware_reads split: prod.splits)

text \<open>The handler on an existing pair, once the request has passed the validators.\<close>

lemma resolveHandler_found:
  assumes "findDuplicate d (rr_id req) = Some dup" and "validationPasses req"
    and "statusData (rr_status req) = Some st"
  shows "resolveHandler now req d =
     (if deletionRequested req then
        (case deleteMissingPerson
                (d\<lparr>duplicateCases :=
                     updateRow (rr_id req) (updatedRow now req st dup) (duplicateCases d)\<rparr>)
                (duplicateCaseId dup) of
           None \<Rightarrow>
             (ServerError,
              d\<lparr>duplicateCases :=
                   updateRow (rr_id req) (updatedRow now req st dup) (duplicateCases d)\<rparr>)
         | Some d2 \<Rightarrow>
             (OK (updatedRow now req st dup),
              d2\<lparr>auditLogs := auditLogs d2 @ [deletionAudit req dup d]\<rparr>))
      else
        (OK (updatedRow now req st dup),
         d\<lparr>duplicateCases :=
              updateRow (rr_id req) (updatedRow now req st dup) (duplicateCases d)\<rparr>))"
  using assms by (simp add: resolveHandler_def Let_def)

lemma resolveHandler_kept:
  assumes "findDuplicate d (rr_id req) = Some dup" and "validationPasses req"
    and "statusData (rr_status req) = Some st" and "\<not> deletionRequested req"
  shows "resolveHandler now req d =
           (OK (updatedRow now req st dup),
            d\<lparr>duplicateCases :=
                 updateRow (rr_id req) (updatedRow now req st dup) (duplicateCases d)\<rparr>)"
  using resolveHandler_found[OF assms(1,2,3)] assms(4) by simp

lemma resolveHandler_deleted:
  assumes "findDuplicate d (rr_id req) = Some dup" and "validationPasses req"
    and "statusData (rr_status req) = Some st" and "deletionRequested req"
    and "caseExists d (duplicateCaseId dup)"
  shows "resolveHandler now req d =
           (OK (updatedRow now req st dup),
            d\<lparr>missingPersons := filter (\<lambda>c. mp_id c \<noteq> duplicateCaseId dup) (missingPersons d),
              duplicateCases :=
                filter (\<lambda>x. originalCaseId x \<noteq> duplicateCaseId dup
                           \<and> duplicateCaseId x \<noteq> duplicateCaseId dup)
                  (updateRow (rr_id req) (updatedRow now req st dup) (duplicateCases d)),
              auditLogs := auditLogs d @ [deletionAudit req dup d]\<rparr>)"
proof -
  let ?d1 = "d\<lparr>duplicateCases :=
                 updateRow (rr_id req) (updatedRow now req st dup) (duplicateCases d)\<rparr>"
  have "caseExists ?d1 (duplicateCaseId dup)"
    using assms(5) by (simp add: caseExists_updateRows)
  from deleteMissingPerson_Some[OF this] show ?thesis
    using resolveHandler_found[OF assms(1,2,3), of now] assms(4) by simp
qed

lemma resolveHandler_delete_throws:
  assumes "findDuplicate d (rr_id req) = Some dup" and "validationPasses req"
    and "statusData (rr_status req) = Some st" and "deletionRequested req"
    and "\<not> caseExists d (duplicateCaseId dup)"
  shows "resolveHandler now req d =
           (ServerError,
            d\<lparr>duplicateCases :=
                 updateRow (rr_id req) (updatedRow now req st dup) (duplicateCases d)\<rparr>)"
proof -
  let ?d1 = "d\<lparr>duplicateCases :=
                 updateRow (rr_id req) (updatedRow now req st dup) (duplicateCases d)\<rparr>"
  have "deleteMissingPerson ?d1 (duplicateCaseId dup) = None"
    using assms(5) by (simp add: deleteMissingPerson_def caseExists_updateRows)
  then show ?thesis
    using resolveHandler_found[OF assms(1,2,3), of now] assms(4) by simp
qed

text \<open>
  The route removes a case exactly when the request passes the validators, names an
  existing pair whose second case is in the table, and has the status \<open>CONFIRMADO\<close> and
  a truthy delete flag; the case removed is the second case of the pair.
\<close>

lemma filter_cases_changes:
  "filter (\<lambda>c. mp_id c \<noteq> a) xs \<noteq> xs \<longleftrightarrow> (\<exists>c\<in>set xs. mp_id c = a)"
  by (simp add: filter_id_conv)

lemma resolve_removes_case_iff:
  "missingPersons (snd (resolve now req d)) \<noteq> missingPersons d \<longleftrightarrow>
     validationPasses req \<and> deletionRequested req
     \<and> (\<exists>dup. findDuplicate d (rr_id req) = Some dup \<and> caseExists d (duplicateCaseId dup))"
proof (cases "validationPasses req")
  case False
  then show ?thesis by (simp add: resolve_handler resolveHandler_def)
next
  case True
  then obtain st where st: "statusData (rr_status req) = Some st"
    using validationPasses_status by blast
  show ?thesis
  proof (cases "findDuplicate d (rr_id req)")
    case None
    then show ?thesis using True by (simp add: resolve_handler resolveHandler_def)
  next
    case (Some dup)
    show ?thesis
    proof (cases "deletionRequested req")
      case False
      then show ?thesis
        using resolveHandler_kept[OF Some True st False, of now] by (simp add: resolve_handler)
    next
      case del: True
      show ?thesis
      proof (cases "caseExists d (duplicateCaseId dup)")
        case ex: True
        then have "filter (\<lambda>c. mp_id c \<noteq> duplicateCaseId dup) (missingPersons d)
                     \<noteq> missingPersons d"
          unfolding filter_cases_changes caseExists_iff .
        then show ?thesis
          using resolveHandler_deleted[OF Some True st del ex, of now] True del Some ex
          by (simp add: resolve_handler)
      next
        case nex: False
        then show ?thesis
          using resolveHandler_delete_throws[OF Some True st del nex, of now] Some
          by (simp add: resolve_handler)
      qed
    qed
  qed
qed

lemma resolve_keeps_other_cases:
  assumes "findDuplicate d (rr_id req) = Some dup"
  shows "set (missingPersons (snd (resolve now req d)))
           \<supseteq> {c \<in> set (missingPersons d). mp_id c \<noteq> duplicateCaseId dup}"
proof (cases "validationPasses req")
  case False
  then show ?thesis by (auto simp: resolve_handler resolveHandler_def)
next
  case True
  then obtain st where st: "statusData (rr_status req) = Some st"
    using validationPasses_status by blast
  show ?thesis
  proof (cases "deletionRequested req")
    case False
    then show ?thesis
      using resolveHandler_kept[OF assms True st False, of now] by (auto simp: resolve_handler)
  next
    case del: True
    show ?thesis
    proof (cases "caseExists d (duplicateCaseId dup)")
      case ex: True
      then show ?thesis
        using resolveHandler_deleted[OF assms True st del ex, of now]
        by (auto simp: resolve_handler)
    next
      case nex: False
      then show ?thesis
        using resolveHandler_delete_throws[OF assms True st del nex, of now]
        by (auto simp: resolve_handler)
    qed
  qed
qed

text \<open>
  The audit log after a call: the entry of the handler when a case was deleted, then
  the row of the middleware when the request has a user.
\<close>

lemma resolve_auditLogs:
  "auditLogs (snd (resolve now req d)) =
     auditLogs (resolveAudit req (snd (resolveHandler now req d)))"
  by (simp add: resolve_def split: prod.splits)

lemma resolveAudit_row:
  assumes "rr_userId req = Some u" "u \<noteq> []"
  shows "auditLogs (resolveAudit req d) =
           auditLogs d @ [\<lparr>al_userId = Some u, al_action = ''RESOLVE_DUPLICATE'',
                            al_entityType = ''CASE'', al_entityId = Some (PairRef (rr_id req)),
                            al_payload = RequestMade ''PATCH'' (resolveBody req)\<rparr>]"
  using assms by (simp add: resolveAudit_def auditLogMiddleware_def)


text \<open>The detection pass and the listing leave the table of cases as it is.\<close>

lemma detect_keeps_cases: "missingPersons (snd (detect lc F now req d)) = missingPersons d"
proof -
  let ?cs = "allCandidates lc (theThreshold req) (findManyApproved d) 0"
  obtain r d1 where p: "persistLoop F (dr_userId req) now ?cs d [] = (r, d1)"
    by (cases "persistLoop F (dr_userId req) now ?cs d []")
  have "snd (detect lc F now req d) = d1"
    unfolding detect_eq p by (cases r) simp_all
  then show ?thesis using persistLoop_shape[OF p] by simp
qed

lemma listDuplicates_keeps_state: "snd (listDuplicates q d) = d"
  by (simp add: listDuplicates_def split: option.splits)

text \<open>
  Referential integrity is kept by the two routes that write, so the states they
  reach from one that has it all have it; on such a state the delete of the second case
  of a pair never throws.
\<close>

lemma fkIntegrity_iff:
  "fkIntegrity d \<longleftrightarrow>
     (\<forall>x\<in>set (duplicateCases d).
        caseExists d (originalCaseId x) \<and> caseExists d (duplicateCaseId x))"
  by (simp add: fkIntegrity_def list_all_iff)

lemma createDuplicate_fkIntegrity:
  assumes "fkIntegrity d" "createDuplicate F u n c d = Some (row, d')"
  shows "fkIntegrity d'"
proof -
  have ex: "caseExists d (c_originalCaseId c)" "caseExists d (c_duplicateCaseId c)"
    using assms(2) by (auto simp: createDuplicate_def split: if_splits)
  have d': "d' = d\<lparr>duplicateCases := duplicateCases d @ [row], nextId := Suc (nextId d)\<rparr>"
    and row: "originalCaseId row = c_originalCaseId c" "duplicateCaseId row = c_duplicateCaseId c"
    using createDuplicate_Some(1,2,3)[OF assms(2)] by simp_all
  show ?thesis
    using assms(1) ex row by (auto simp: fkIntegrity_iff d' caseExists_def)
qed

lemma persistLoop_fkIntegrity:
  assumes "fkIntegrity d" "persistLoop F u n cs d acc = (r, d')"
  shows "fkIntegrity d'"
  using assms
proof (induction cs arbitrary: d acc)
  case Nil
  then show ?case by simp
next
  case (Cons c cs)
  show ?case
  proof (cases "findUniquePair d (c_originalCaseId c) (c_duplicateCaseId c)")
    case (Some e)
    then show ?thesis using Cons by simp
  next
    case None
    show ?thesis
    proof (cases "createDuplicate F u n c d")
      case cn: None
      then show ?thesis using Cons.prems None by simp
    next
      case (Some p)
      obtain row d1 where p: "p = (row, d1)" by (cases p)
      have "fkIntegrity d1" using createDuplicate_fkIntegrity[OF Cons.prems(1)] Some p by simp
      moreover have "persistLoop F u n cs d1 (acc @ [row]) = (r, d')"
        using Cons.prems(2) None Some p by simp
      ultimately show ?thesis by (rule Cons.IH)
    qed
  qed
qed

lemma detect_fkIntegrity:
  assumes "fkIntegrity d"
  shows "fkIntegrity (snd (detect lc F now req d))"
proof -
  let ?cs = "allCandidates lc (theThreshold req) (findManyApproved d) 0"
  obtain r d1 where p: "persistLoop F (dr_userId req) now ?cs d [] = (r, d1)"
    by (cases "persistLoop F (dr_userId req) now ?cs d []")
  have "snd (detect lc F now req d) = d1"
    unfolding detect_eq p by (cases r) simp_all
  then show ?thesis using persistLoop_fkIntegrity[OF assms p] by simp
qed

lemma set_updateRow:
  assumes "find (\<lambda>x. dc_id x = i) xs = Some old"
  shows "set (updateRow i new xs) \<subseteq> insert new (set xs)"
  using assms by (induction xs) (auto split: if_splits)

lemma updateRow_fkIntegrity:
  assumes "fkIntegrity d" "findDuplicate d (rr_id req) = Some dup"
  shows "fkIntegrity (d\<lparr>duplicateCases :=
           updateRow (rr_id req) (updatedRow now req st dup) (duplicateCases d)\<rparr>)"
proof -
  have dup: "dup \<in> set (duplicateCases d)" by (rule findDuplicate_mem[OF assms(2)])
  have sub: "set (updateRow (rr_id req) (updatedRow now req st dup) (duplicateCases d))
               \<subseteq> insert (updatedRow now req st dup) (set (duplicateCases d))"
    using assms(2) set_updateRow[of "rr_id req" "duplicateCases d" dup] by (simp add: findDuplicate_def)
  have ids: "originalCaseId (updatedRow now req st dup) = originalCaseId dup"
            "duplicateCaseId (updatedRow now req st dup) = duplicateCaseId dup"
    by (simp_all add: updatedRow_def)
  show ?thesis
    using assms(1) dup sub ids
    by (auto simp: fkIntegrity_iff caseExists_def subset_iff)
qed

lemma deleteMissingPerson_fkIntegrity:
  assumes "fkIntegrity d" "deleteMissingPerson d a = Some d'"
  shows "fkIntegrity d'"
proof -
  have d': "d' = d\<lparr>missingPersons := filter (\<lambda>c. mp_id c \<noteq> a) (missingPersons d),
             duplicateCases :=
               filter (\<lambda>x. originalCaseId x \<noteq> a \<and> duplicateCaseId x \<noteq> a) (duplicateCases d)\<rparr>"
    using assms(2) by (auto simp: deleteMissingPerson_def split: if_splits)
  show ?thesis
    using assms(1) unfolding fkIntegrity_iff caseExists_iff d' by fastforce
qed

lemma fkIntegrity_found:
  assumes "fkIntegrity d" "findDuplicate d i = Some dup"
  shows "caseExists d (duplicateCaseId dup)"
  using assms findDuplicate_mem[OF assms(2)] by (auto simp: fkIntegrity_def list_all_iff)

lemma auditLogMiddleware_fkIntegrity:
  "fkIntegrity (auditLogMiddleware a e u i m b d) = fkIntegrity d"
  by (simp add: fkIntegrity_def auditLogMiddleware_tables auditLogMiddleware_reads)

lemma resolveHandler_fkIntegrity:
  assumes "fkIntegrity d"
  shows "fkIntegrity (snd (resolveHandler now req d))"
proof (cases "validationPasses req")
  case False
  then show ?thesis using assms by (simp add: resolveHandler_def)
next
  case True
  then obtain st where st: "statusData (rr_status req) = Some st"
    using validationPasses_status by blast
  show ?thesis
  proof (cases "findDuplicate d (rr_id req)")
    case None
    then show ?thesis using assms True by (simp add: resolveHandler_def)
  next
    case (Some dup)
    let ?d1 = "d\<lparr>duplicateCases :=
                 updateRow (rr_id req) (updatedRow now req st dup) (duplicateCases d)\<rparr>"
    have d1: "fkIntegrity ?d1" by (rule updateRow_fkIntegrity[OF assms Some])
    have ex: "caseExists d (duplicateCaseId dup)" by (rule fkIntegrity_found[OF assms Some])
    show ?thesis
    proof (cases "deletionRequested req")
      case False
      then show ?thesis
        using resolveHandler_kept[OF Some True st False, of now] d1 by simp
    next
      case del: True
      have ex1: "caseExists ?d1 (duplicateCaseId dup)"
        using ex by (simp add: caseExists_updateRows)
      have "fkIntegrity (the (deleteMissingPerson ?d1 (duplicateCaseId dup)))"
        using deleteMissingPerson_fkIntegrity[OF d1] deleteMissingPerson_Some[OF ex1] by simp
      then have "fkIntegrity
          (d\<lparr>missingPersons := filter (\<lambda>c. mp_id c \<noteq> duplicateCaseId dup) (missingPersons d),
             duplicateCases :=
               filter (\<lambda>x. originalCaseId x \<noteq> duplicateCaseId dup
                          \<and> duplicateCaseId x \<noteq> duplicateCaseId dup)
                 (updateRow (rr_id req) (updatedRow now req st dup) (duplicateCases d)),
             auditLogs := auditLogs d @ [deletionAudit req dup d]\<rparr>)"
        unfolding deleteMissingPerson_Some[OF ex1] by (simp add: fkIntegrity_iff caseExists_def)
      then show ?thesis
        using resolveHandler_deleted[OF Some True st del ex, of now] by simp
    qed
  qed
qed

lemma resolve_fkIntegrity:
  assumes "fkIntegrity d"
  shows "fkIntegrity (snd (resolve now req d))"
proof -
  obtain r d1 where h: "resolveHandler now req d = (r, d1)"
    by (cases "resolveHandler now req d")
  have "fkIntegrity d1" using resolveHandler_fkIntegrity[OF assms, of now req] h by simp
  then show ?thesis by (simp add: resolve_def resolveAudit_def h auditLogMiddleware_fkIntegrity)
qed

subsection \<open>Text similarity\<close>

text \<open>
  Claim C5. For all strings, \<open>levenshteinDistance\<close> returns the edit distance that the
  recurrence of the specification defines, and \<open>calculateSimilarity\<close> returns
  \<open>(maxLen - distance) / maxLen\<close> with \<open>maxLen\<close> the larger length, 1 when both strings
  are empty; in particular a string is at distance 0 from itself and has similarity 1
  with itself.
\<close>

theorem levenshtein_is_edit_distance:
  "levenshteinDistance s1 s2 = Some (spec_editDistance s1 s2)
   \<and> calculateSimilarity s1 s2 = Some (spec_textSimilarity s1 s2)
   \<and> calculateSimilarity [] ([] :: 'a list) = Some 1
   \<and> levenshteinDistance s s = Some 0
   \<and> calculateSimilarity s s = Some 1"
  by (simp add: levenshteinDistance_eq calculateSimilarity_eq spec_editDistance_refl
      spec_textSimilarity_refl)

text \<open>
  Claim C9. The normalized text similarity is symmetric in its two strings.
\<close>

theorem calculateSimilarity_symmetric:
  "calculateSimilarity s1 s2 = calculateSimilarity s2 s1"
  by (simp add: calculateSimilarity_eq spec_textSimilarity_sym[of s1 s2])

subsection \<open>The pairwise score\<close>

text \<open>
  Claim C4, as amended. For every pair of case records the pairwise score is the
  weighted formula over the factors whose two inputs are both truthy (non-empty
  names, non-empty provinces, non-zero ages, dates that are there): the sum of
  similarity times weight over the sum of the weights, in JavaScript arithmetic, and 0
  when no factor applies. The score lies between 0 and 1. When exactly one factor
  applies, the score is the rounded product of its similarity and weight divided by the
  weight, which is the similarity itself when that is 0 or 1.
\<close>

theorem pairScore_weighted_truthy:
  "pairScore lc c1 c2 = Some (spec_weightedScore (applicableFactors lc c1 c2))
   \<and> (\<exists>s. pairScore lc c1 c2 = Some s \<and> 0 \<le> s \<and> s \<le> 1)
   \<and> (applicableFactors lc c1 c2 = [] \<longrightarrow> pairScore lc c1 c2 = Some 0)
   \<and> (\<forall>s w. applicableFactors lc c1 c2 = [(s, w)] \<longrightarrow>
          pairScore lc c1 c2 = Some (jsdiv (jsmul s w) w))
   \<and> (\<forall>s w. applicableFactors lc c1 c2 = [(s, w)] \<and> (s = 0 \<or> s = 1) \<longrightarrow>
          pairScore lc c1 c2 = Some s)"
proof (intro conjI allI impI)
  show "pairScore lc c1 c2 = Some (spec_weightedScore (applicableFactors lc c1 c2))"
    by (rule pairScore_eq)
  show "\<exists>s. pairScore lc c1 c2 = Some s \<and> 0 \<le> s \<and> s \<le> 1"
    by (rule pairScore_range)
  show "pairScore lc c1 c2 = Some 0" if "applicableFactors lc c1 c2 = []"
    using that by (simp add: pairScore_eq spec_weightedScore_Nil)
  show "pairScore lc c1 c2 = Some (jsdiv (jsmul s w) w)"
    if "applicableFactors lc c1 c2 = [(s, w)]" for s w
    using that by (rule pairScore_single)
  show "pairScore lc c1 c2 = Some s"
    if h: "applicableFactors lc c1 c2 = [(s, w)] \<and> (s = 0 \<or> s = 1)" for s w
  proof -
    have w: "0 < w \<and> fl64 w = w" using applicableFactors_good[of lc c1 c2] h by simp
    have "jsdiv (jsmul s w) w = s"
      using h w by (auto simp: jsdiv_def jsmul_def fl64_zero fl64_one)
    then show ?thesis using pairScore_single[of lc c1 c2 s w] h by simp
  qed
qed

text \<open>
  The theorem at three pairs: one where no factor applies, one where only the dates
  apply and lie six days apart, and one where only the dates apply and coincide.
\<close>

theorem pairScore_weighted_truthy_witness:
  "applicableFactors toLowerCaseAscii (blankCase ''a'') (blankCase ''b'') = []
   \<and> pairScore toLowerCaseAscii (blankCase ''a'') (blankCase ''b'') = Some 0
   \<and> applicableFactors toLowerCaseAscii
        (exampleCase ''a'' [] None 0 [] 2) (exampleCase ''b'' [] None (6 * oneDay) [] 1)
       = [(dateSimilarity 0 (6 * oneDay), jsnum (2/10))]
   \<and> pairScore toLowerCaseAscii
        (exampleCase ''a'' [] None 0 [] 2) (exampleCase ''b'' [] None (6 * oneDay) [] 1)
       = Some (jsdiv (jsmul (dateSimilarity 0 (6 * oneDay)) (jsnum (2/10))) (jsnum (2/10)))
   \<and> applicableFactors toLowerCaseAscii
        (exampleCase ''a'' [] None 0 [] 2) (exampleCase ''b'' [] None 0 [] 1)
       = [(1, jsnum (2/10))]
   \<and> pairScore toLowerCaseAscii
        (exampleCase ''a'' [] None 0 [] 2) (exampleCase ''b'' [] None 0 [] 1) = Some 1"
proof -
  have a: "applicableFactors toLowerCaseAscii (blankCase ''a'') (blankCase ''b'') = []"
    by code_simp
  have b: "applicableFactors toLowerCaseAscii
        (exampleCase ''a'' [] None 0 [] 2) (exampleCase ''b'' [] None (6 * oneDay) [] 1)
       = [(dateSimilarity 0 (6 * oneDay), jsnum (2/10))]"
    by code_simp
  have c: "applicableFactors toLowerCaseAscii
        (exampleCase ''a'' [] None 0 [] 2) (exampleCase ''b'' [] None 0 [] 1)
       = [(1, jsnum (2/10))]"
    by code_simp
  have t1: "pairScore toLowerCaseAscii (blankCase ''a'') (blankCase ''b'') = Some 0"
    using a pairScore_weighted_truthy[of toLowerCaseAscii "blankCase ''a''" "blankCase ''b''"]
    by blast
  have t2: "pairScore toLowerCaseAscii
        (exampleCase ''a'' [] None 0 [] 2) (exampleCase ''b'' [] None (6 * oneDay) [] 1)
       = Some (jsdiv (jsmul (dateSimilarity 0 (6 * oneDay)) (jsnum (2/10))) (jsnum (2/10)))"
    using b pairScore_weighted_truthy[of toLowerCaseAscii
        "exampleCase ''a'' [] None 0 [] 2" "exampleCase ''b'' [] None (6 * oneDay) [] 1"]
    by blast
  have t3: "pairScore toLowerCaseAscii
        (exampleCase ''a'' [] None 0 [] 2) (exampleCase ''b'' [] None 0 [] 1) = Some 1"
    using c pairScore_weighted_truthy[of toLowerCaseAscii
        "exampleCase ''a'' [] None 0 [] 2" "exampleCase ''b'' [] None 0 [] 1"]
    by blast
  show ?thesis
    using a b c t1 t2 t3 by (intro conjI)
qed

text \<open>
  Claim C4 as it is stated fails twice. Two cases of age 0 have both ages present, yet
  the code leaves the age factor out, so the score differs from the formula over the
  factors with both inputs present: for the names \<open>a\<close> and \<open>b\<close>, equal dates and the
  provinces \<open>x\<close> and \<open>y\<close> the code scores 0.25 where the formula gives 0.4. And for two cases that have nothing but dates, six
  days apart, the date factor is the only one that applies, its similarity is the double
  0.8, and the score is another double (the next one above it). The same holds for two
  cases with empty names and provinces and no age, as the schema allows them, where the
  date factor is the only one the code applies.
\<close>

theorem pairScore_counterexample:
  "pairScore toLowerCaseAscii (exampleCase ''a'' [97] (Some 0) 0 [120] 2)
                              (exampleCase ''b'' [98] (Some 0) 0 [121] 1)
     \<noteq> Some (spec_weightedScore (spec_presentFactors toLowerCaseAscii
                 (exampleCase ''a'' [97] (Some 0) 0 [120] 2)
                 (exampleCase ''b'' [98] (Some 0) 0 [121] 1)))
   \<and> pairScore toLowerCaseAscii (exampleCase ''a'' [97] (Some 0) 0 [120] 2)
                                (exampleCase ''b'' [98] (Some 0) 0 [121] 1) = Some (1 / 4)
   \<and> spec_weightedScore (spec_presentFactors toLowerCaseAscii
          (exampleCase ''a'' [97] (Some 0) 0 [120] 2)
          (exampleCase ''b'' [98] (Some 0) 0 [121] 1)) = jsnum (4/10)
   \<and> spec_presentFactors toLowerCaseAscii (dateOnlyCase ''a'' 0) (dateOnlyCase ''b'' (6 * oneDay))
       = [(dateSimilarity 0 (6 * oneDay), jsnum (2/10))]
   \<and> pairScore toLowerCaseAscii (dateOnlyCase ''a'' 0) (dateOnlyCase ''b'' (6 * oneDay))
       \<noteq> Some (dateSimilarity 0 (6 * oneDay))
   \<and> applicableFactors toLowerCaseAscii
        (exampleCase ''a'' [] None 0 [] 2) (exampleCase ''b'' [] None (6 * oneDay) [] 1)
       = [(dateSimilarity 0 (6 * oneDay), jsnum (2/10))]
   \<and> pairScore toLowerCaseAscii
        (exampleCase ''a'' [] None 0 [] 2) (exampleCase ''b'' [] None (6 * oneDay) [] 1)
       \<noteq> Some (dateSimilarity 0 (6 * oneDay))
   \<and> dateSimilarity 0 (6 * oneDay) = jsnum (8/10)"
  by code_simp

text \<open>
  Claim C10. A field that is there but falsy counts as absent: a case of age 0 scores as
  the same case without an age, a case whose name is the empty string as the same case
  without a name. Two empty names add no name factor (although the similarity of two
  empty strings is 1), and an age of 0 on either side adds no age factor.
\<close>

theorem falsy_fields_excluded:
  "pairScore lc (c1\<lparr>age := Some 0\<rparr>) c2 = pairScore lc (c1\<lparr>age := None\<rparr>) c2
   \<and> pairScore lc c1 (c2\<lparr>age := Some 0\<rparr>) = pairScore lc c1 (c2\<lparr>age := None\<rparr>)
   \<and> pairScore lc (c1\<lparr>fullName := Some []\<rparr>) c2 = pairScore lc (c1\<lparr>fullName := None\<rparr>) c2
   \<and> pairScore lc c1 (c2\<lparr>fullName := Some []\<rparr>) = pairScore lc c1 (c2\<lparr>fullName := None\<rparr>)
   \<and> compareName lc (c1\<lparr>fullName := Some []\<rparr>) (c2\<lparr>fullName := Some []\<rparr>) t = Some t
   \<and> calculateSimilarity ([] :: jsstring) [] = Some 1
   \<and> compareAge (c1\<lparr>age := Some 0\<rparr>) c2 t = t
   \<and> compareAge c1 (c2\<lparr>age := Some 0\<rparr>) t = t"
  by (simp add: pairScore_def compareName_def compareDate_def compareProvince_def
      compareAge_def calculateSimilarity_def split: option.splits)

subsection \<open>The detection pass\<close>

text \<open>
  Claim C6. When a detection pass has answered 200, a second pass on the resulting
  state with the same threshold creates no pair and leaves the state as it is,
  whoever runs it, whenever, and whatever the database would do on a create. On every
  state, a candidate whose ordered pair of identifiers is already registered is skipped:
  the loop goes on to the next candidate with the table and the list of created rows
  untouched.
\<close>

theorem detect_twice_creates_nothing:
  assumes "detect lc F now req d = (OK created, d')"
    and "dr_threshold req' = dr_threshold req"
  shows "detect lc F' now' req' d' = (OK [], d')
       \<and> (\<forall>s c rest acc. findUniquePair s (c_originalCaseId c) (c_duplicateCaseId c) \<noteq> None \<longrightarrow>
             persistLoop F' (dr_userId req') now' (c # rest) s acc
               = persistLoop F' (dr_userId req') now' rest s acc)"
proof
  let ?cs = "allCandidates lc (theThreshold req) (findManyApproved d) 0"
  obtain r d1 where p: "persistLoop F (dr_userId req) now ?cs d [] = (r, d1)"
    by (cases "persistLoop F (dr_userId req) now ?cs d []")
  have "(case r of None \<Rightarrow> (ServerError, d1) | Some cr \<Rightarrow> (OK cr, d1)) = (OK created, d')"
    using assms(1) unfolding detect_eq p by simp
  then have "r = Some created \<and> d1 = d'" by (cases r) simp_all
  then have run: "persistLoop F (dr_userId req) now ?cs d [] = (Some created, d')"
    using p by simp
  have reg: "\<forall>c\<in>set ?cs. findUniquePair d' (c_originalCaseId c) (c_duplicateCaseId c) \<noteq> None"
    by (rule persistLoop_registers[OF run])
  have same: "findManyApproved d' = findManyApproved d"
    using persistLoop_shape[OF run] by (intro findManyApproved_cong) simp
  have th: "theThreshold req' = theThreshold req"
    using assms(2) by (simp add: theThreshold_def)
  show "detect lc F' now' req' d' = (OK [], d')"
    by (simp add: detect_eq same th persistLoop_all_registered[OF reg])
  show "\<forall>s c rest acc. findUniquePair s (c_originalCaseId c) (c_duplicateCaseId c) \<noteq> None \<longrightarrow>
             persistLoop F' (dr_userId req') now' (c # rest) s acc
               = persistLoop F' (dr_userId req') now' rest s acc"
    by auto
qed

text \<open>
  The theorem on the example: the first pass registers the pair of \<open>a\<close> and \<open>b\<close>, the
  second one nothing.
\<close>

theorem detect_twice_creates_nothing_witness:
  "detect toLowerCaseAscii noFailure 1000 (modRequest None) exampleDb
     = (OK [rowAB], exampleDb\<lparr>duplicateCases := [rowAB], nextId := 1\<rparr>)
   \<and> detect toLowerCaseAscii noFailure 2000 (modRequest None)
       (exampleDb\<lparr>duplicateCases := [rowAB], nextId := 1\<rparr>)
     = (OK [], exampleDb\<lparr>duplicateCases := [rowAB], nextId := 1\<rparr>)"
proof -
  have first: "detect toLowerCaseAscii noFailure 1000 (modRequest None) exampleDb
     = (OK [rowAB], exampleDb\<lparr>duplicateCases := [rowAB], nextId := 1\<rparr>)"
    by code_simp
  have "detect toLowerCaseAscii noFailure 2000 (modRequest None)
       (exampleDb\<lparr>duplicateCases := [rowAB], nextId := 1\<rparr>)
     = (OK [], exampleDb\<lparr>duplicateCases := [rowAB], nextId := 1\<rparr>)"
    using detect_twice_creates_nothing[OF first, of "modRequest None" noFailure 2000] by simp
  with first show ?thesis by (intro conjI)
qed

text \<open>
  Claim C8. A detection pass with threshold 1.1 creates no pair and changes nothing,
  for every table of cases, every registry and every behaviour of the database. A pass
  with threshold 0 over an empty registry, when no create fails, answers 200 and has
  created a row for every combination of two eligible cases, those that share a
  comparable field among them.
\<close>

theorem detect_threshold_extremes:
  "detect lc F now \<lparr>dr_userId = u, dr_threshold = Some (jsnum (11/10))\<rparr> d = (OK [], d)
   \<and> ((\<forall>a b. \<not> F a b) \<and> duplicateCases d = [] \<longrightarrow>
        (\<exists>created d'.
           detect lc F now \<lparr>dr_userId = u, dr_threshold = Some 0\<rparr> d = (OK created, d')
           \<and> duplicateCases d' = created
           \<and> (\<forall>i j. i < j \<and> j < length (findManyApproved d) \<longrightarrow>
                (\<exists>row. row \<in> set created
                   \<and> originalCaseId row = mp_id (findManyApproved d ! i)
                   \<and> duplicateCaseId row = mp_id (findManyApproved d ! j)))))"
proof (intro conjI impI)
  show "detect lc F now \<lparr>dr_userId = u, dr_threshold = Some (jsnum (11/10))\<rparr> d = (OK [], d)"
    using detect_above_one[OF jsnum_11_10, of lc F now "\<lparr>dr_userId = u, dr_threshold = None\<rparr>" d]
    by simp
next
  assume h: "(\<forall>a b. \<not> F a b) \<and> duplicateCases d = []"
  let ?req = "\<lparr>dr_userId = u, dr_threshold = Some 0\<rparr>"
  let ?cases = "findManyApproved d"
  let ?cs = "allCandidates lc 0 ?cases 0"
  have th: "theThreshold ?req = 0" by (simp add: theThreshold_def)
  have "\<forall>c\<in>set ?cs. \<not> F (c_originalCaseId c) (c_duplicateCaseId c)
          \<and> caseExists d (c_originalCaseId c) \<and> caseExists d (c_duplicateCaseId c)"
    using h candidate_cases_exist[of _ lc 0 d 0] by simp
  then obtain created d' where run: "persistLoop F u now ?cs d [] = (Some created, d')"
    using persistLoop_succeeds[of ?cs F d u now "[]"] by blast
  have det: "detect lc F now ?req d = (OK created, d')"
    by (simp add: detect_eq th run)
  obtain new where new: "duplicateCases d' = duplicateCases d @ new" "created = [] @ new"
    using persistLoop_shape[OF run] by blast
  then have dc: "duplicateCases d' = created" using h by simp
  have reg: "\<forall>c\<in>set ?cs. findUniquePair d' (c_originalCaseId c) (c_duplicateCaseId c) \<noteq> None"
    by (rule persistLoop_registers[OF run])
  have all: "\<forall>i j. i < j \<and> j < length ?cases \<longrightarrow>
                (\<exists>row. row \<in> set created
                   \<and> originalCaseId row = mp_id (?cases ! i)
                   \<and> duplicateCaseId row = mp_id (?cases ! j))"
  proof (intro allI impI)
    fix i j assume ij: "i < j \<and> j < length ?cases"
    have "candidateAt lc ?cases i j \<in> set ?cs"
      using ij scoreAt_range[of lc ?cases i j] by (auto simp: set_allCandidates)
    then have "findUniquePair d' (mp_id (?cases ! i)) (mp_id (?cases ! j)) \<noteq> None"
      using reg by (fastforce simp: candidateAt_def)
    then show "\<exists>row. row \<in> set created
                   \<and> originalCaseId row = mp_id (?cases ! i)
                   \<and> duplicateCaseId row = mp_id (?cases ! j)"
      using dc by (auto simp: findUniquePair_None_iff)
  qed
  show "\<exists>created d'.
           detect lc F now ?req d = (OK created, d')
           \<and> duplicateCases d' = created
           \<and> (\<forall>i j. i < j \<and> j < length ?cases \<longrightarrow>
                (\<exists>row. row \<in> set created
                   \<and> originalCaseId row = mp_id (?cases ! i)
                   \<and> duplicateCaseId row = mp_id (?cases ! j)))"
    using det dc all by blast
qed

text \<open>
  The theorem on the example, whose registry is empty: after the pass with threshold 0
  the pair of \<open>b\<close> and \<open>c\<close>, which have nothing in common, is among the created rows.
\<close>

theorem detect_threshold_extremes_witness:
  "(\<forall>a b. \<not> noFailure a b) \<and> duplicateCases exampleDb = []
   \<and> (\<exists>created d'.
        detect toLowerCaseAscii noFailure 1000 \<lparr>dr_userId = Some ''mod'', dr_threshold = Some 0\<rparr>
          exampleDb = (OK created, d')
        \<and> duplicateCases d' = created
        \<and> (\<exists>row. row \<in> set created \<and> originalCaseId row = ''b'' \<and> duplicateCaseId row = ''c''))"
proof -
  have h: "(\<forall>a b. \<not> noFailure a b) \<and> duplicateCases exampleDb = []"
    by (simp add: noFailure_def exampleDb_def)
  have len: "(1::nat) < 2 \<and> 2 < length (findManyApproved exampleDb)"
    by code_simp
  have ids: "mp_id (findManyApproved exampleDb ! 1) = ''b''"
            "mp_id (findManyApproved exampleDb ! 2) = ''c''"
    by code_simp+
  show ?thesis
    using h len ids
      detect_threshold_extremes[of toLowerCaseAscii noFailure 1000 "Some ''mod''" exampleDb]
    by (metis (no_types, lifting))
qed

text \<open>
  Claim C7, as amended. The detection pass does not validate the threshold and never
  answers with a validation error: it runs with the number it is given. A threshold
  at or below 0 behaves as the threshold 0, and a threshold above 1 makes the pass
  answer 200 with no pair created.
\<close>

theorem detect_threshold_not_validated:
  "fst (detect lc F now req d) \<noteq> BadRequest
   \<and> (t \<le> 0 \<longrightarrow> detect lc F now (req\<lparr>dr_threshold := Some t\<rparr>) d
                   = detect lc F now (req\<lparr>dr_threshold := Some 0\<rparr>) d)
   \<and> (1 < t \<longrightarrow> detect lc F now (req\<lparr>dr_threshold := Some t\<rparr>) d = (OK [], d))"
  using detect_not_BadRequest detect_nonpositive detect_above_one by blast

text \<open>The theorem on the example, at the thresholds -0.5 and 1.5.\<close>

theorem detect_threshold_not_validated_witness:
  "(- 1 / 2 :: rat) \<le> 0
   \<and> detect toLowerCaseAscii noFailure 1000 (modRequest (Some (- 1 / 2))) exampleDb
       = detect toLowerCaseAscii noFailure 1000 (modRequest (Some 0)) exampleDb
   \<and> (1 :: rat) < 3 / 2
   \<and> detect toLowerCaseAscii noFailure 1000 (modRequest (Some (3 / 2))) exampleDb
       = (OK [], exampleDb)"
proof -
  have upd: "\<And>t. (modRequest None)\<lparr>dr_threshold := Some t\<rparr> = modRequest (Some t)"
    by (simp add: modRequest_def)
  show ?thesis
    using detect_threshold_not_validated[of toLowerCaseAscii noFailure 1000 "modRequest None"
            exampleDb "- 1 / 2"]
          detect_threshold_not_validated[of toLowerCaseAscii noFailure 1000 "modRequest None"
            exampleDb "3 / 2"]
    by (simp add: upd)
qed

text \<open>
  Claim C7 as it is stated fails: with the threshold 1.5 the pass answers 200 with an
  empty list instead of rejecting the request, and with the threshold -0.5 it reads the
  three cases, scores their three pairs and registers all of them.
\<close>

theorem detect_threshold_counterexample:
  "detect toLowerCaseAscii noFailure 1000 (modRequest (Some (3 / 2))) exampleDb
     = (OK [], exampleDb)
   \<and> detect toLowerCaseAscii noFailure 1000 (modRequest (Some (- 1 / 2))) exampleDb
     = (OK [rowAB, rowAC, rowBC],
        exampleDb\<lparr>duplicateCases := [rowAB, rowAC, rowBC], nextId := 3\<rparr>)"
  by code_simp

text \<open>
  Claim C2, as amended. When the create of a candidate throws, the pass stops there
  and answers 500: the rows created for the candidates before it stay in the table,
  and neither that candidate nor any later one is persisted.
\<close>

theorem detect_aborts_on_failed_create:
  assumes "outerLoop lc (theThreshold req) (findManyApproved d) 0 [] = Some (pre @ c # post)"
    and "persistLoop F (dr_userId req) now pre d [] = (Some created1, d1)"
    and "findUniquePair d1 (c_originalCaseId c) (c_duplicateCaseId c) = None"
    and "createDuplicate F (dr_userId req) now c d1 = None"
  shows "detect lc F now req d = (ServerError, d1)
       \<and> duplicateCases d1 = duplicateCases d @ created1"
proof
  have cs: "allCandidates lc (theThreshold req) (findManyApproved d) 0 = pre @ c # post"
    using assms(1) by (simp add: outerLoop_eq)
  have "persistLoop F (dr_userId req) now (pre @ c # post) d [] = (None, d1)"
    using assms(2,3,4) by (simp add: persistLoop_append)
  then show "detect lc F now req d = (ServerError, d1)"
    by (simp add: detect_eq cs)
  show "duplicateCases d1 = duplicateCases d @ created1"
    using persistLoop_shape[OF assms(2)] by auto
qed

text \<open>
  The theorem on the example with threshold 0, where the create of the second of the
  three candidates fails.
\<close>

theorem detect_aborts_on_failed_create_witness:
  "outerLoop toLowerCaseAscii (theThreshold (modRequest (Some 0))) (findManyApproved exampleDb) 0 []
     = Some ([candAB] @ candAC # [candBC])
   \<and> persistLoop (failsOn ''a'' ''c'') (dr_userId (modRequest (Some 0))) 1000 [candAB] exampleDb []
     = (Some [rowAB], exampleDb\<lparr>duplicateCases := [rowAB], nextId := 1\<rparr>)
   \<and> findUniquePair (exampleDb\<lparr>duplicateCases := [rowAB], nextId := 1\<rparr>)
        (c_originalCaseId candAC) (c_duplicateCaseId candAC) = None
   \<and> createDuplicate (failsOn ''a'' ''c'') (dr_userId (modRequest (Some 0))) 1000 candAC
        (exampleDb\<lparr>duplicateCases := [rowAB], nextId := 1\<rparr>) = None
   \<and> detect toLowerCaseAscii (failsOn ''a'' ''c'') 1000 (modRequest (Some 0)) exampleDb
     = (ServerError, exampleDb\<lparr>duplicateCases := [rowAB], nextId := 1\<rparr>)"
proof -
  have a: "outerLoop toLowerCaseAscii (theThreshold (modRequest (Some 0)))
             (findManyApproved exampleDb) 0 [] = Some ([candAB] @ candAC # [candBC])"
    by code_simp
  have b: "persistLoop (failsOn ''a'' ''c'') (dr_userId (modRequest (Some 0))) 1000 [candAB]
             exampleDb []
           = (Some [rowAB], exampleDb\<lparr>duplicateCases := [rowAB], nextId := 1\<rparr>)"
    by code_simp
  have c: "findUniquePair (exampleDb\<lparr>duplicateCases := [rowAB], nextId := 1\<rparr>)
        (c_originalCaseId candAC) (c_duplicateCaseId candAC) = None"
    by code_simp
  have d: "createDuplicate (failsOn ''a'' ''c'') (dr_userId (modRequest (Some 0))) 1000 candAC
        (exampleDb\<lparr>duplicateCases := [rowAB], nextId := 1\<rparr>) = None"
    by code_simp
  have "detect toLowerCaseAscii (failsOn ''a'' ''c'') 1000 (modRequest (Some 0)) exampleDb
     = (ServerError, exampleDb\<lparr>duplicateCases := [rowAB], nextId := 1\<rparr>)"
    using detect_aborts_on_failed_create[OF a b c d] by simp
  with a b c d show ?thesis by (intro conjI)
qed

text \<open>
  Claim C2 as it is stated fails: when only the create of the pair of \<open>a\<close> and \<open>c\<close>
  fails, the caller gets the answer 500, and the pair of \<open>b\<close> and \<open>c\<close>, whose create
  would not have failed, is not in the registry.
\<close>

theorem detect_failed_create_counterexample:
  "detect toLowerCaseAscii (failsOn ''a'' ''c'') 1000 (modRequest (Some 0)) exampleDb
     = (ServerError, exampleDb\<lparr>duplicateCases := [rowAB], nextId := 1\<rparr>)
   \<and> findUniquePair (exampleDb\<lparr>duplicateCases := [rowAB], nextId := 1\<rparr>) ''b'' ''c'' = None
   \<and> \<not> failsOn ''a'' ''c'' ''b'' ''c''"
  by code_simp

subsection \<open>Resolution\<close>




text \<open>
  Claim C3 does not hold of the route. The validator of the delete flag,
  \<open>isBoolean()\<close>, accepts the strings \<open>true\<close>, \<open>false\<close>, \<open>1\<close> and \<open>0\<close> besides the booleans
  and converts nothing, and the handler tests the flag for truthiness; each of these
  strings is truthy. So a request with the status \<open>CONFIRMADO\<close> and the flag
  \<open>"false"\<close> (or \<open>"0"\<close>) passes the validators and deletes the second case of the pair:
  on the example the answer is 200, the case \<open>b\<close> and the pair are gone, and the audit
  log holds the entry of the deletion and then the row of the middleware. The same
  request with the boolean \<open>false\<close> keeps the three cases and the pair.
\<close>

theorem resolve_deletes_on_string_false:
  "validationPasses (adminResolve ''CONFIRMADO'' (Some (JStr ''false'')))
   \<and> deletionRequested (adminResolve ''CONFIRMADO'' (Some (JStr ''false'')))
   \<and> map mp_id (missingPersons exampleDbPending) = [''a'', ''b'', ''c'']
   \<and> duplicateCases exampleDbPending = [rowAB]
   \<and> duplicateCaseId rowAB = ''b''
   \<and> resolve 2000 (adminResolve ''CONFIRMADO'' (Some (JStr ''false''))) exampleDbPending
       = (OK (rowAB\<lparr>status := CONFIRMADO, resolvedBy := Some ''adm'', resolvedAt := Some 2000\<rparr>),
          exampleDb\<lparr>missingPersons :=
            [exampleCase ''a'' nameMaria (Some 30) 0 luanda 3,
             exampleCase ''c'' nameJoao (Some 8) (400 * oneDay) huila 1],
            duplicateCases := [],
            auditLogs :=
              [\<lparr>al_userId = Some ''adm'', al_action = ''DELETE_DUPLICATE_CASE'',
                al_entityType = ''CASE'', al_entityId = Some (CaseRef ''b''),
                al_payload = DeletedCase (Some nameMaria) ''a'' ''b'' (jsnum (9/10))\<rparr>,
               \<lparr>al_userId = Some ''adm'', al_action = ''RESOLVE_DUPLICATE'',
                al_entityType = ''CASE'', al_entityId = Some (PairRef 0),
                al_payload =
                  RequestMade ''PATCH''
                    [(''status'', JStr ''CONFIRMADO''), (''deleteDuplicate'', JStr ''false'')]\<rparr>],
            nextId := 1\<rparr>)
   \<and> map mp_id
         (missingPersons
            (snd (resolve 2000 (adminResolve ''CONFIRMADO'' (Some (JStr ''0''))) exampleDbPending)))
       = [''a'', ''c'']
   \<and> map mp_id
         (missingPersons
            (snd (resolve 2000 (adminResolve ''CONFIRMADO'' (Some (JBool False)))
                    exampleDbPending)))
       = [''a'', ''b'', ''c'']
   \<and> duplicateCases
         (snd (resolve 2000 (adminResolve ''CONFIRMADO'' (Some (JBool False))) exampleDbPending))
       = [rowAB\<lparr>status := CONFIRMADO, resolvedBy := Some ''adm'', resolvedAt := Some 2000\<rparr>]"
  by code_simp

end
